theory Spec2Isabelle
  imports Main "HOL-Library.Word" "HOL-Library.Signed_Division" "HOL-Library.Multiset"
begin

section \<open>Machine integers\<close>

text \<open>
  The package \<^verbatim>\<open>sliceheap\<close> (file \<^verbatim>\<open>sliceheap.go\<close>) implements a binary heap in place over a Go
  slice. Indices and lengths are Go \<^verbatim>\<open>int\<close>s; they are modelled as 64-bit words, read as two's
  complement by \<open>sint\<close>, so that \<^verbatim>\<open>2*i + 1\<close> wraps around exactly as it does in \<^verbatim>\<open>down\<close>.
  The function \<open>wrap\<close> is the two's complement reading of an unbounded integer; it is only
  used to calculate with \<open>sint\<close>.
\<close>

type_synonym go_int = "64 word"

definition wrap :: "int \<Rightarrow> int" where
  "wrap k = (k + 2 ^ 63) mod 2 ^ 64 - 2 ^ 63"

lemma sint_word_of_int: "sint (word_of_int k :: go_int) = wrap k"
  by (simp add: int_word_sint wrap_def)

lemma wrap_id: "- (2 ^ 63) \<le> k \<Longrightarrow> k < 2 ^ 63 \<Longrightarrow> wrap k = k"
  by (simp add: wrap_def)

lemma mod_above: "(m::int) \<le> x \<Longrightarrow> x < 2 * m \<Longrightarrow> x mod m = x - m"
  using minus_mod_self2 [of x m] mod_pos_pos_trivial [of "x - m" m] by simp

lemma mod_below: "- (m::int) \<le> x \<Longrightarrow> x < 0 \<Longrightarrow> x mod m = x + m"
  using mod_add_self2 [of x m] mod_pos_pos_trivial [of "x + m" m] by simp

lemma wrap_high: "2 ^ 63 \<le> k \<Longrightarrow> k < 2 ^ 63 + 2 ^ 64 \<Longrightarrow> wrap k = k - 2 ^ 64"
  unfolding wrap_def using mod_above [of "2 ^ 64" "k + 2 ^ 63"] by simp

lemma wrap_low: "- (2 ^ 63) - 2 ^ 64 \<le> k \<Longrightarrow> k < - (2 ^ 63) \<Longrightarrow> wrap k = k + 2 ^ 64"
  unfolding wrap_def using mod_below [of "2 ^ 64" "k + 2 ^ 63"] by simp

lemma sint_bounds: "- (2 ^ 63) \<le> sint (i::go_int)" "sint (i::go_int) < 2 ^ 63"
  using sint_ge [of i] sint_lt [of i] by simp_all

lemma sint_child: "sint (2 * i + 1 :: go_int) = wrap (2 * sint i + 1)"
proof -
  have "2 * i + 1 = (word_of_int (2 * sint i + 1) :: go_int)" by simp
  then show ?thesis by (simp only: sint_word_of_int)
qed

lemma sint_succ: "sint (j + 1 :: go_int) = wrap (sint j + 1)"
proof -
  have "j + 1 = (word_of_int (sint j + 1) :: go_int)" by simp
  then show ?thesis by (simp only: sint_word_of_int)
qed

lemma sint_pred: "sint (j - 1 :: go_int) = wrap (sint j - 1)"
proof -
  have "j - 1 = (word_of_int (sint j - 1) :: go_int)" by simp
  then show ?thesis by (simp only: sint_word_of_int)
qed

lemma sint_of_nat: "sint (of_nat n :: go_int) = wrap (int n)"
proof -
  have "(of_nat n :: go_int) = word_of_int (int n)" by simp
  then show ?thesis by (simp only: sint_word_of_int)
qed

section \<open>Slices and run-time panics\<close>

text \<open>
  A slice is a list. An index expression \<^verbatim>\<open>h[i]\<close> panics when \<^verbatim>\<open>i\<close> is negative or not below
  \<^verbatim>\<open>len(h)\<close>; a slice expression \<^verbatim>\<open>h[:n]\<close> panics when \<^verbatim>\<open>n\<close> is out of bounds. A panic is the
  \<open>Inl\<close> branch of the result, and it carries the contents of the slice at the moment of
  the panic, so that what an operation had already written is visible. The ordering function
  \<^verbatim>\<open>less\<close> is a total pure function; it is called \<open>lt\<close> below, \<open>less\<close> being the name of
  HOL's own ordering. The wrappers \<^verbatim>\<open>Init\<close>, \<^verbatim>\<open>Push\<close>, \<^verbatim>\<open>Pop\<close>, \<^verbatim>\<open>Remove\<close> and \<^verbatim>\<open>Fix\<close> only pass
  \<^verbatim>\<open>cmp.Less\<close> to the functions modelled here.
\<close>

datatype error = IndexOutOfRange | SliceBoundsOutOfRange

type_synonym ('a, 'r) result = "(error \<times> 'a list) + 'r"

text \<open>
  \<^verbatim>\<open>a < b\<close> on Go ints is the signed comparison.
\<close>

definition slt :: "go_int \<Rightarrow> go_int \<Rightarrow> bool" where
  "slt a b = (sint a < sint b)"

text \<open>
  \<^verbatim>\<open>a / b\<close> on Go ints truncates towards zero (\<open>sdiv\<close>), unlike \<open>div\<close>.
\<close>

definition quo :: "go_int \<Rightarrow> go_int \<Rightarrow> go_int" where
  "quo a b = word_of_int (sint a sdiv sint b)"

text \<open>
  \<^verbatim>\<open>len(h)\<close>. A slice never has more than \<open>2 ^ 63 - 1\<close> elements; the theorems below
  assume so (\<open>fits (length h)\<close>).
\<close>

definition len :: "'a list \<Rightarrow> go_int" where
  "len h = of_nat (length h)"

definition in_range :: "'a list \<Rightarrow> go_int \<Rightarrow> bool" where
  "in_range h i = (0 \<le> sint i \<and> sint i < int (length h))"

definition at :: "'a list \<Rightarrow> go_int \<Rightarrow> 'a" where
  "at h i = h ! nat (sint i)"

definition index :: "'a list \<Rightarrow> go_int \<Rightarrow> ('a, 'a) result" where
  "index h i = (if in_range h i then Inr (at h i) else Inl (IndexOutOfRange, h))"

text \<open>
  \<^verbatim>\<open>h[i], h[j] = h[j], h[i]\<close>. In \<^verbatim>\<open>up\<close> and \<^verbatim>\<open>down\<close> both elements have just been read,
  so the indices are in range.
\<close>

definition swap :: "'a list \<Rightarrow> go_int \<Rightarrow> go_int \<Rightarrow> 'a list" where
  "swap h i j = h[nat (sint i) := at h j, nat (sint j) := at h i]"

text \<open>
  The assignment \<^verbatim>\<open>h[i] = v\<close>.
\<close>

definition store :: "'a list \<Rightarrow> go_int \<Rightarrow> 'a \<Rightarrow> ('a, 'a list) result" where
  "store h i v = (if in_range h i then Inr (h[nat (sint i) := v]) else Inl (IndexOutOfRange, h))"

text \<open>
  The slice expression \<^verbatim>\<open>h[:n]\<close>. Go checks \<^verbatim>\<open>n\<close> against the capacity; the operations below
  only ever shrink a slice by one element, so the length is the bound used here.
\<close>

definition slice_to :: "'a list \<Rightarrow> go_int \<Rightarrow> ('a, 'a list) result" where
  "slice_to h n =
    (if 0 \<le> sint n \<and> sint n \<le> int (length h) then Inr (take (nat (sint n)) h)
     else Inl (SliceBoundsOutOfRange, h))"

section \<open>The sift primitives\<close>

text \<open>
  \<^verbatim>\<open>down\<close> (sliceheap.go, lines 112 to 130). \<open>down_loop\<close> is the body of its \<^verbatim>\<open>for\<close> loop, with
  the loop variable \<^verbatim>\<open>i\<close> as argument; it returns the slice and the final \<^verbatim>\<open>i\<close>. The
  call \<^verbatim>\<open>less(h[j2], h[j1])\<close> reads \<^verbatim>\<open>h[j2]\<close> first; the test \<^verbatim>\<open>j1 < 0\<close> is the overflow guard.
\<close>

function down_loop :: "('a \<Rightarrow> 'a \<Rightarrow> bool) \<Rightarrow> go_int \<Rightarrow> 'a list \<Rightarrow> go_int \<Rightarrow> ('a, 'a list \<times> go_int) result" where
  "down_loop lt n h i =
    (let j1 = 2 * i + 1 in
     if \<not> slt j1 n \<or> slt j1 0 then Inr (h, i)
     else
       let j2 = j1 + 1 in
       (case (if slt j2 n
              then (case index h j2 of Inl e \<Rightarrow> Inl e | Inr a \<Rightarrow>
                     (case index h j1 of Inl e \<Rightarrow> Inl e | Inr b \<Rightarrow>
                        Inr (if lt a b then j2 else j1)))
              else Inr j1) of
         Inl e \<Rightarrow> Inl e
       | Inr j \<Rightarrow>
          (case index h j of Inl e \<Rightarrow> Inl e | Inr a \<Rightarrow>
            (case index h i of Inl e \<Rightarrow> Inl e | Inr b \<Rightarrow>
               if \<not> lt a b then Inr (h, i)
               else down_loop lt n (swap h i j) j))))"
  by pat_completeness auto

lemma child_pos: "0 \<le> sint (i::go_int) \<Longrightarrow> 0 \<le> sint (2 * i + 1) \<Longrightarrow> sint (2 * i + 1) = 2 * sint i + 1"
  using sint_bounds [of i] wrap_id [of "2 * sint i + 1"] wrap_high [of "2 * sint i + 1"]
  by (cases "2 * sint i + 1 < 2 ^ 63") (simp_all add: sint_child)

lemma succ_pos: "0 \<le> sint (j::go_int) \<Longrightarrow> 0 \<le> sint (j + 1) \<Longrightarrow> sint (j + 1) = sint j + 1"
  using sint_bounds [of j] wrap_id [of "sint j + 1"] wrap_high [of "sint j + 1"]
  by (cases "sint j + 1 < 2 ^ 63") (simp_all add: sint_succ)

lemma choose_cases:
  assumes "(if slt j2 n
            then (case index h j2 of Inl e \<Rightarrow> Inl e | Inr a \<Rightarrow>
                   (case index h j1 of Inl e \<Rightarrow> Inl e | Inr b \<Rightarrow>
                      Inr (if lt a b then j2 else j1)))
            else Inr j1) = Inr j"
  shows "j = j1 \<or> (j = j2 \<and> slt j2 n \<and> in_range h j2)"
  using assms by (auto simp: index_def split: if_splits sum.splits)

lemma index_Inr: "index h i = Inr a \<Longrightarrow> in_range h i"
  by (simp add: index_def split: if_splits)

lemma down_measure:
  assumes i: "in_range h i"
    and j1: "slt (2 * i + 1) n" "\<not> slt (2 * i + 1) 0"
    and j: "j = 2 * i + 1 \<or> (j = 2 * i + 1 + 1 \<and> slt j n \<and> in_range h j)"
  shows "sint i < sint j \<and> sint j < sint n"
proof -
  have i0: "0 \<le> sint i" using i by (simp add: in_range_def)
  have p1: "0 \<le> sint (2 * i + 1)" using j1 by (simp add: slt_def)
  have e1: "sint (2 * i + 1) = 2 * sint i + 1" using child_pos [OF i0 p1] .
  from j show ?thesis
  proof
    assume "j = 2 * i + 1"
    with e1 i0 j1 show ?thesis by (simp add: slt_def)
  next
    assume a: "j = 2 * i + 1 + 1 \<and> slt j n \<and> in_range h j"
    then have jj: "j = 2 * i + 1 + 1" and sn: "sint j < sint n" and r: "0 \<le> sint j"
      unfolding slt_def in_range_def by blast+
    have "sint j = sint (2 * i + 1) + 1" using succ_pos [OF p1] r unfolding jj by blast
    with e1 i0 sn show ?thesis by linarith
  qed
qed

termination down_loop
proof (relation "measure (\<lambda>(lt, n, h, i). nat (sint n - sint i))", goal_cases)
  case 1
  show ?case by simp
next
  case (2 lt n h i j1 j2 j a b)
  from 2(4) have "j = j1 \<or> (j = j2 \<and> slt j2 n \<and> in_range h j2)" by (rule choose_cases)
  with 2(1,3) have "j = 2 * i + 1 \<or> (j = 2 * i + 1 + 1 \<and> slt j n \<and> in_range h j)" by auto
  moreover have "in_range h i" using 2(6) by (rule index_Inr)
  moreover have "slt (2 * i + 1) n" "\<not> slt (2 * i + 1) 0" using 2(1,2) by auto
  ultimately have "sint i < sint j \<and> sint j < sint n" using down_measure by blast
  then show ?case by simp
qed
text \<open>
  \<^verbatim>\<open>down\<close> returns \<^verbatim>\<open>i > i0\<close>: whether the element moved.
\<close>

definition down :: "'a list \<Rightarrow> go_int \<Rightarrow> go_int \<Rightarrow> ('a \<Rightarrow> 'a \<Rightarrow> bool) \<Rightarrow> ('a, 'a list \<times> bool) result" where
  "down h i0 n lt =
    (case down_loop lt n h i0 of Inl e \<Rightarrow> Inl e | Inr (h', i) \<Rightarrow> Inr (h', slt i0 i))"

text \<open>
  \<^verbatim>\<open>up\<close> (sliceheap.go, lines 101 to 110). The parent index is \<^verbatim>\<open>(j - 1) / 2\<close> with Go's
  truncating division, so the parent of index 0 is 0 and the loop stops at the root.
\<close>

function up :: "'a list \<Rightarrow> go_int \<Rightarrow> ('a \<Rightarrow> 'a \<Rightarrow> bool) \<Rightarrow> ('a, 'a list) result" where
  "up h j lt =
    (let i = quo (j - 1) 2 in
     if i = j then Inr h
     else
       (case index h j of Inl e \<Rightarrow> Inl e | Inr a \<Rightarrow>
         (case index h i of Inl e \<Rightarrow> Inl e | Inr b \<Rightarrow>
            if \<not> lt a b then Inr h
            else up (swap h i j) i lt)))"
  by pat_completeness auto

lemma sint_two: "sint (2 :: go_int) = 2"
  by simp

lemma sdiv2_bounds: "- (2 ^ 63) \<le> (k::int) \<Longrightarrow> k < 2 ^ 63 \<Longrightarrow> - (2 ^ 63) \<le> k sdiv 2 \<and> k sdiv 2 < 2 ^ 63"
  by (auto simp: signed_divide_int_def sgn_if)

lemma sint_quo2: "sint (quo a 2) = sint a sdiv 2"
  unfolding quo_def sint_word_of_int sint_two
  using sdiv2_bounds [OF sint_bounds [of a]] by (intro wrap_id) simp_all

lemma sdiv2_nonneg: "0 \<le> (k::int) \<Longrightarrow> k sdiv 2 = k div 2"
  by (auto simp: signed_divide_int_def sgn_if)

lemma sint_eq_iff: "(a::go_int) = b \<longleftrightarrow> sint a = sint b"
  by (fact word_eq_iff_signed)

lemma parent_less:
  assumes j: "0 \<le> sint (j::go_int)" and ne: "quo (j - 1) 2 \<noteq> j"
  shows "0 < sint j \<and> sint (quo (j - 1) 2) = (sint j - 1) div 2"
proof -
  have pos: "0 < sint j"
  proof (rule ccontr)
    assume "\<not> 0 < sint j"
    with j have z: "sint j = 0" by simp
    then have "sint (j - 1) = - 1" by (simp add: sint_pred wrap_id)
    then have "sint (quo (j - 1) 2) = 0" by (simp add: sint_quo2 signed_divide_int_def)
    with z ne show False by (simp add: sint_eq_iff)
  qed
  then have "sint (j - 1) = sint j - 1"
    using sint_bounds [of j] by (simp add: sint_pred wrap_id)
  with pos show ?thesis by (simp add: sint_quo2 sdiv2_nonneg)
qed

termination up
proof (relation "measure (\<lambda>(h, j, lt). nat (sint j))", goal_cases)
  case 1
  show ?case by simp
next
  case (2 h j lt i a b)
  have "0 \<le> sint j" using index_Inr [OF 2(3)] by (simp add: in_range_def)
  then have "0 < sint j \<and> sint i = (sint j - 1) div 2"
    using parent_less [of j] 2(1,2) by simp
  then have "0 \<le> sint i \<and> sint i < sint j" by auto
  then show ?case by simp
qed

section \<open>The public operations\<close>

text \<open>
  \<^verbatim>\<open>InitFunc\<close> (lines 29 to 35): \<open>init_loop\<close> is its \<^verbatim>\<open>for\<close> loop, counting \<^verbatim>\<open>i\<close> down from
  \<^verbatim>\<open>n/2 - 1\<close> while \<^verbatim>\<open>i >= 0\<close>.
\<close>

function init_loop :: "('a \<Rightarrow> 'a \<Rightarrow> bool) \<Rightarrow> go_int \<Rightarrow> 'a list \<Rightarrow> go_int \<Rightarrow> ('a, 'a list) result" where
  "init_loop lt n h i =
    (if \<not> slt i 0
     then (case down h i n lt of Inl e \<Rightarrow> Inl e | Inr (h', moved) \<Rightarrow> init_loop lt n h' (i - 1))
     else Inr h)"
  by pat_completeness auto

lemma pred_nonneg: "0 \<le> sint (i::go_int) \<Longrightarrow> sint (i - 1) = sint i - 1"
  using sint_bounds [of i] by (simp add: sint_pred wrap_id)

termination init_loop
proof (relation "measure (\<lambda>(lt, n, h, i). nat (sint i + 1))", goal_cases)
  case 1
  show ?case by simp
next
  case (2 lt n h i r h' moved)
  then have "0 \<le> sint i" by (simp add: slt_def)
  then show ?case by (simp add: pred_nonneg)
qed

definition InitFunc :: "'a list \<Rightarrow> ('a \<Rightarrow> 'a \<Rightarrow> bool) \<Rightarrow> ('a, 'a list) result" where
  "InitFunc h lt = (let n = len h in init_loop lt n h (quo n 2 - 1))"

text \<open>
  \<^verbatim>\<open>PushFunc\<close> (lines 44 to 47): append, then sift the new last element up.
\<close>

definition PushFunc :: "'a list \<Rightarrow> 'a \<Rightarrow> ('a \<Rightarrow> 'a \<Rightarrow> bool) \<Rightarrow> ('a, 'a list) result" where
  "PushFunc h x lt = (let h' = h @ [x] in up h' (len h' - 1) lt)"

text \<open>
  \<^verbatim>\<open>PopFunc\<close> (lines 57 to 64). It returns the removed element and the shortened slice.
\<close>

definition PopFunc :: "'a list \<Rightarrow> ('a \<Rightarrow> 'a \<Rightarrow> bool) \<Rightarrow> ('a, 'a \<times> 'a list) result" where
  "PopFunc h lt =
    (let n = len h - 1 in
     case index h 0 of Inl e \<Rightarrow> Inl e | Inr x \<Rightarrow>
       (case index h n of Inl e \<Rightarrow> Inl e | Inr y \<Rightarrow>
         (case store h 0 y of Inl e \<Rightarrow> Inl e | Inr h1 \<Rightarrow>
           (case slice_to h1 n of Inl e \<Rightarrow> Inl e | Inr h2 \<Rightarrow>
             (case down h2 0 n lt of Inl e \<Rightarrow> Inl e | Inr (h3, moved) \<Rightarrow> Inr (x, h3))))))"

text \<open>
  \<^verbatim>\<open>RemoveFunc\<close> (lines 73 to 84). \<^verbatim>\<open>down\<close> and \<^verbatim>\<open>up\<close> run on the slice at its full length,
  with \<^verbatim>\<open>n\<close> as the logical length; the slice is cut afterwards.
\<close>

definition RemoveFunc :: "'a list \<Rightarrow> go_int \<Rightarrow> ('a \<Rightarrow> 'a \<Rightarrow> bool) \<Rightarrow> ('a, 'a \<times> 'a list) result" where
  "RemoveFunc h i lt =
    (let n = len h - 1 in
     case index h i of Inl e \<Rightarrow> Inl e | Inr x \<Rightarrow>
       (case (if n \<noteq> i
              then (case index h n of Inl e \<Rightarrow> Inl e | Inr y \<Rightarrow>
                     (case store h i y of Inl e \<Rightarrow> Inl e | Inr h1 \<Rightarrow>
                       (case down h1 i n lt of Inl e \<Rightarrow> Inl e | Inr (h2, moved) \<Rightarrow>
                          if \<not> moved then up h2 i lt else Inr h2)))
              else Inr h) of
          Inl e \<Rightarrow> Inl e
        | Inr h3 \<Rightarrow>
           (case slice_to h3 n of Inl e \<Rightarrow> Inl e | Inr h4 \<Rightarrow> Inr (x, h4))))"

text \<open>
  \<^verbatim>\<open>FixFunc\<close> (lines 95 to 99).
\<close>

definition FixFunc :: "'a list \<Rightarrow> go_int \<Rightarrow> ('a \<Rightarrow> 'a \<Rightarrow> bool) \<Rightarrow> ('a, 'a list) result" where
  "FixFunc h i lt =
    (case down h i (len h) lt of Inl e \<Rightarrow> Inl e | Inr (h1, moved) \<Rightarrow>
       if \<not> moved then up h1 i lt else Inr h1)"

section \<open>Specification predicates and test drivers\<close>

text \<open>
  The ordering function must be a strict weak ordering: irreflexive, transitive, and with a
  transitive incomparability relation.
\<close>

definition strict_weak_order :: "('a \<Rightarrow> 'a \<Rightarrow> bool) \<Rightarrow> bool" where
  "strict_weak_order lt \<longleftrightarrow>
     (\<forall>x. \<not> lt x x) \<and>
     (\<forall>x y z. lt x y \<and> lt y z \<longrightarrow> lt x z) \<and>
     (\<forall>x y z. \<not> lt x y \<and> \<not> lt y x \<and> \<not> lt y z \<and> \<not> lt z y \<longrightarrow> \<not> lt x z \<and> \<not> lt z x)"

text \<open>
  The heap invariant, as the function \<^verbatim>\<open>verify\<close> of the tests checks it: no child at
  \<^verbatim>\<open>2*i + 1\<close> or \<^verbatim>\<open>2*i + 2\<close> is less than its parent at \<^verbatim>\<open>i\<close>.
\<close>

definition heap_inv :: "('a \<Rightarrow> 'a \<Rightarrow> bool) \<Rightarrow> 'a list \<Rightarrow> bool" where
  "heap_inv lt h \<longleftrightarrow>
     (\<forall>i \<in> {0..<length h}.
        (2 * i + 1 < length h \<longrightarrow> \<not> lt (h ! (2 * i + 1)) (h ! i)) \<and>
        (2 * i + 2 < length h \<longrightarrow> \<not> lt (h ! (2 * i + 2)) (h ! i)))"

text \<open>
  The remaining definitions serve the proofs: the parent of an index, the invariant for the
  pairs whose parent is at or after \<open>k\<close>, and the invariants of the two sift loops (the heap
  property with one possible violation at \<open>i\<close>).
\<close>

definition parent :: "nat \<Rightarrow> nat" where
  "parent j = (j - 1) div 2"

definition heap_from :: "('a \<Rightarrow> 'a \<Rightarrow> bool) \<Rightarrow> nat \<Rightarrow> nat \<Rightarrow> 'a list \<Rightarrow> bool" where
  "heap_from lt k n h \<longleftrightarrow> (\<forall>j. 0 < j \<and> j < n \<and> k \<le> parent j \<longrightarrow> \<not> lt (h ! j) (h ! parent j))"

definition down_inv :: "('a \<Rightarrow> 'a \<Rightarrow> bool) \<Rightarrow> nat \<Rightarrow> nat \<Rightarrow> 'a list \<Rightarrow> nat \<Rightarrow> bool" where
  "down_inv lt k n h i \<longleftrightarrow>
     (\<forall>j. 0 < j \<and> j < n \<and> k \<le> parent j \<and> parent j \<noteq> i \<longrightarrow> \<not> lt (h ! j) (h ! parent j)) \<and>
     (\<forall>j. 0 < j \<and> j < n \<and> parent j = i \<and> 0 < i \<and> k \<le> parent i \<longrightarrow> \<not> lt (h ! j) (h ! parent i))"

definition up_inv :: "('a \<Rightarrow> 'a \<Rightarrow> bool) \<Rightarrow> nat \<Rightarrow> 'a list \<Rightarrow> nat \<Rightarrow> bool" where
  "up_inv lt n h i \<longleftrightarrow>
     (\<forall>j. 0 < j \<and> j < n \<and> j \<noteq> i \<longrightarrow> \<not> lt (h ! j) (h ! parent j)) \<and>
     (\<forall>j. 0 < j \<and> j < n \<and> parent j = i \<and> 0 < i \<longrightarrow> \<not> lt (h ! j) (h ! parent i))"

text \<open>
  An ordering with ties, as a priority queue has: pairs of a priority and a payload,
  compared by priority only.
\<close>

definition by_key :: "nat \<times> nat \<Rightarrow> nat \<times> nat \<Rightarrow> bool" where
  "by_key x y = (fst x < fst y)"

text \<open>
  The loop of the tests (\<^verbatim>\<open>for len(h) > 0 { x := Pop(&h) ... }\<close>): pop \<open>k\<close> times, collecting
  the results in order.
\<close>

fun pop_n :: "nat \<Rightarrow> 'a list \<Rightarrow> ('a \<Rightarrow> 'a \<Rightarrow> bool) \<Rightarrow> ('a, 'a list \<times> 'a list) result" where
  "pop_n 0 h lt = Inr ([], h)"
| "pop_n (Suc k) h lt =
    (case PopFunc h lt of Inl e \<Rightarrow> Inl e
     | Inr (x, h') \<Rightarrow>
        (case pop_n k h' lt of Inl e \<Rightarrow> Inl e
         | Inr (xs, h'') \<Rightarrow> Inr (x # xs, h'')))"

text \<open>
  Push the elements of a list one by one, first element first.
\<close>

fun push_all :: "'a list \<Rightarrow> 'a list \<Rightarrow> ('a \<Rightarrow> 'a \<Rightarrow> bool) \<Rightarrow> ('a, 'a list) result" where
  "push_all h [] lt = Inr h"
| "push_all h (x # xs) lt =
    (case PushFunc h x lt of Inl e \<Rightarrow> Inl e | Inr h' \<Rightarrow> push_all h' xs lt)"

text \<open>
  A sequence is non-decreasing under \<open>lt\<close> when no later element is less than an earlier one.
\<close>

definition non_decreasing :: "('a \<Rightarrow> 'a \<Rightarrow> bool) \<Rightarrow> 'a list \<Rightarrow> bool" where
  "non_decreasing lt xs = sorted_wrt (\<lambda>a b. \<not> lt b a) xs"

text \<open>
  A strict weak ordering without ties: two elements neither of which is less than the other
  are equal.
\<close>

definition total_order :: "('a \<Rightarrow> 'a \<Rightarrow> bool) \<Rightarrow> bool" where
  "total_order lt \<longleftrightarrow> strict_weak_order lt \<and> (\<forall>x y. \<not> lt x y \<and> \<not> lt y x \<longrightarrow> x = y)"

section \<open>The loops on natural-number indices\<close>

text \<open>
  For indices within a slice that Go can represent, no arithmetic wraps and no access panics.
  \<open>sift_down\<close>, \<open>sift_up\<close> and \<open>heapify\<close> are the loops of \<^verbatim>\<open>down\<close>, \<^verbatim>\<open>up\<close> and \<^verbatim>\<open>InitFunc\<close> on
  \<open>nat\<close> indices; the lemmas named \<open>_refines\<close> show that the code computes them.
\<close>

function sift_down :: "('a \<Rightarrow> 'a \<Rightarrow> bool) \<Rightarrow> nat \<Rightarrow> 'a list \<Rightarrow> nat \<Rightarrow> 'a list \<times> nat" where
  "sift_down lt n h i =
    (if n \<le> 2 * i + 1 then (h, i)
     else
       let j = (if 2 * i + 2 < n \<and> lt (h ! (2 * i + 2)) (h ! (2 * i + 1)) then 2 * i + 2 else 2 * i + 1) in
       if \<not> lt (h ! j) (h ! i) then (h, i)
       else sift_down lt n (h[i := h ! j, j := h ! i]) j)"
  by pat_completeness auto
termination
  by (relation "measure (\<lambda>(lt, n, h, i). n - i)") (auto split: if_splits)

declare sift_down.simps [simp del]

function sift_up :: "('a \<Rightarrow> 'a \<Rightarrow> bool) \<Rightarrow> 'a list \<Rightarrow> nat \<Rightarrow> 'a list" where
  "sift_up lt h j =
    (if j = 0 then h
     else
       let i = (j - 1) div 2 in
       if \<not> lt (h ! j) (h ! i) then h
       else sift_up lt (h[i := h ! j, j := h ! i]) i)"
  by pat_completeness auto
termination
  by (relation "measure (\<lambda>(lt, h, j). j)") auto

declare sift_up.simps [simp del]

text \<open>
  A length or index fits when a Go \<^verbatim>\<open>int\<close> holds it; every slice length does.
\<close>

definition fits :: "nat \<Rightarrow> bool" where
  "fits k = (k < 2 ^ 63)"

lemma sint_nat: "fits k \<Longrightarrow> sint (of_nat k :: go_int) = int k"
  unfolding fits_def sint_of_nat
proof (rule wrap_id)
  assume "k < 2 ^ 63"
  then have "int k < int (2 ^ 63)" by (simp only: of_nat_less_iff)
  then show "int k < 2 ^ 63" by simp
  show "- (2 ^ 63) \<le> int k" by (rule order_trans [of _ 0]) simp_all
qed

lemma sint_nat_high:
  assumes "\<not> fits k" "k < 2 ^ 64"
  shows "sint (of_nat k :: go_int) < 0"
proof -
  from assms have "int (2 ^ 63) \<le> int k" "int k < int (2 ^ 64)"
    unfolding fits_def by (simp_all only: of_nat_le_iff of_nat_less_iff not_less)
  then have "2 ^ 63 \<le> int k" "int k < 2 ^ 63 + 2 ^ 64" by simp_all
  from wrap_high [OF this] \<open>int k < int (2 ^ 64)\<close> show ?thesis
    by (simp add: sint_of_nat)
qed

lemma fits_mono: "fits b \<Longrightarrow> a \<le> b \<Longrightarrow> fits a"
  by (simp add: fits_def)

lemma in_range_nat: "fits (length h) \<Longrightarrow> k < length h \<Longrightarrow> in_range h (of_nat k)"
  by (simp add: in_range_def sint_nat fits_mono)

lemma index_nat: "fits (length h) \<Longrightarrow> k < length h \<Longrightarrow> index h (of_nat k) = Inr (h ! k)"
  by (simp add: index_def in_range_nat at_def sint_nat fits_mono)

lemma swap_nat:
  "fits (length h) \<Longrightarrow> i < length h \<Longrightarrow> j < length h \<Longrightarrow>
   swap h (of_nat i) (of_nat j) = h[i := h ! j, j := h ! i]"
  by (simp add: swap_def at_def sint_nat fits_mono)

lemma slt_nat: "fits a \<Longrightarrow> fits b \<Longrightarrow> slt (of_nat a) (of_nat b) = (a < b)"
  by (simp add: slt_def sint_nat)

lemma child_word: "2 * (of_nat i :: go_int) + 1 = of_nat (2 * i + 1)"
  by simp

lemma child2_word: "(of_nat (2 * i + 1) :: go_int) + 1 = of_nat (2 * i + 2)"
  by simp

lemma zero_word: "(0 :: go_int) = of_nat 0"
  by simp

lemma not_neg_nat: "fits k \<Longrightarrow> \<not> slt (of_nat k :: go_int) 0"
  by (simp add: slt_def sint_nat)

lemma slt_nat_ge:
  assumes "fits n" "k < 2 ^ 64" "n \<le> k"
  shows "\<not> slt (of_nat k) (of_nat n) \<or> slt (of_nat k :: go_int) 0"
proof (cases "fits k")
  case True
  then show ?thesis using assms by (simp add: slt_nat)
next
  case False
  from sint_nat_high [OF this assms(2)] show ?thesis by (simp add: slt_def)
qed

lemma down_loop_break:
  assumes "fits n" "fits i" "n \<le> 2 * i + 1"
  shows "down_loop lt (of_nat n) h (of_nat i) = Inr (h, of_nat i)"
proof -
  have lt64: "2 * i + 1 < 2 ^ 64" using assms(2) by (simp add: fits_def)
  have "\<not> slt (of_nat (2 * i + 1)) (of_nat n) \<or> slt (of_nat (2 * i + 1) :: go_int) 0"
    using assms(1) lt64 assms(3) by (rule slt_nat_ge)
  then show ?thesis
    by (subst down_loop.simps) (simp only: child_word Let_def if_True)
qed

lemma down_loop_step:
  assumes "fits (length h)" "n \<le> length h" "2 * i + 1 < n"
  shows "down_loop lt (of_nat n) h (of_nat i) =
    (let j = (if 2 * i + 2 < n \<and> lt (h ! (2 * i + 2)) (h ! (2 * i + 1)) then 2 * i + 2 else 2 * i + 1) in
     if \<not> lt (h ! j) (h ! i) then Inr (h, of_nat i)
     else down_loop lt (of_nat n) (h[i := h ! j, j := h ! i]) (of_nat j))"
proof -
  have f: "fits n" "fits (2 * i + 1)" "fits (2 * i + 2)" "fits i"
    using assms by (auto intro: fits_mono)
  have r: "i < length h" "2 * i + 1 < length h" using assms by auto
  have a: "slt (of_nat (2 * i + 1)) (of_nat n :: go_int)" using assms f by (simp only: slt_nat)
  have b: "\<not> slt (of_nat (2 * i + 1) :: go_int) 0"
    using f(2) by (rule not_neg_nat)
  have c: "slt (of_nat (2 * i + 2)) (of_nat n :: go_int) = (2 * i + 2 < n)"
    using f by (simp only: slt_nat)
  show ?thesis
  proof (cases "2 * i + 2 < n")
    case True
    then have r2: "2 * i + 2 < length h" using assms by simp
    show ?thesis
      apply (subst down_loop.simps)
      apply (simp only: child_word child2_word Let_def a b c True index_nat [OF assms(1) r2]
          index_nat [OF assms(1) r(2)] index_nat [OF assms(1) r(1)] sum.case if_True if_False
          simp_thms)
      apply (cases "lt (h ! (2 * i + 2)) (h ! (2 * i + 1))")
       apply (simp_all only: if_True if_False index_nat [OF assms(1) r2] index_nat [OF assms(1) r(2)]
          index_nat [OF assms(1) r(1)] sum.case swap_nat [OF assms(1) r(1) r2]
          swap_nat [OF assms(1) r(1) r(2)] simp_thms)
      done
  next
    case False
    show ?thesis
      apply (subst down_loop.simps)
      apply (simp only: child_word child2_word Let_def a b c False
          index_nat [OF assms(1) r(2)] index_nat [OF assms(1) r(1)] sum.case if_True if_False
          swap_nat [OF assms(1) r(1) r(2)] simp_thms)
      done
  qed
qed

declare down_loop.simps [simp del]
declare up.simps [simp del]
declare init_loop.simps [simp del]

lemma sift_down_length: "length (fst (sift_down lt n h i)) = length h"
proof (induction lt n h i rule: sift_down.induct)
  case (1 lt n h i)
  show ?case
    by (subst sift_down.simps) (simp add: Let_def 1)
qed

lemma sift_down_snd: "i \<le> snd (sift_down lt n h i) \<and> (snd (sift_down lt n h i) = i \<or> snd (sift_down lt n h i) < n)"
proof (induction lt n h i rule: sift_down.induct)
  case (1 lt n h i)
  show ?case
    apply (subst (1 2 3) sift_down.simps)
    using 1 by (auto simp: Let_def)
qed

lemma down_loop_refines:
  assumes "fits (length h)" "n \<le> length h" "fits i"
  shows "down_loop lt (of_nat n) h (of_nat i) =
    Inr (fst (sift_down lt n h i), of_nat (snd (sift_down lt n h i)))"
  using assms
proof (induction lt n h i rule: sift_down.induct)
  case (1 lt n h i)
  have fn: "fits n" using 1(2,3) by (rule fits_mono)
  show ?case
  proof (cases "n \<le> 2 * i + 1")
    case True
    then show ?thesis
      using down_loop_break [OF fn 1(4) True] by (subst (1 2) sift_down.simps) simp
  next
    case False
    then have c: "2 * i + 1 < n" by simp
    define j where "j = (if 2 * i + 2 < n \<and> lt (h ! (2 * i + 2)) (h ! (2 * i + 1)) then 2 * i + 2 else 2 * i + 1)"
    have jn: "j < n" using c by (simp add: j_def)
    then have fj: "fits j" using fn by (auto intro: fits_mono)
    have sd: "sift_down lt n h i =
        (if \<not> lt (h ! j) (h ! i) then (h, i) else sift_down lt n (h[i := h ! j, j := h ! i]) j)"
      using False by (subst sift_down.simps) (simp only: Let_def if_False flip: j_def)
    have dl: "down_loop lt (of_nat n) h (of_nat i) =
        (if \<not> lt (h ! j) (h ! i) then Inr (h, of_nat i)
         else down_loop lt (of_nat n) (h[i := h ! j, j := h ! i]) (of_nat j))"
      using down_loop_step [OF 1(2,3) c, of lt] by (simp only: Let_def flip: j_def)
    show ?thesis
    proof (cases "lt (h ! j) (h ! i)")
      case True
      have ih: "down_loop lt (of_nat n) (h[i := h ! j, j := h ! i]) (of_nat j) =
        Inr (fst (sift_down lt n (h[i := h ! j, j := h ! i]) j),
             of_nat (snd (sift_down lt n (h[i := h ! j, j := h ! i]) j)))"
        using 1(1) [OF False j_def _ _ _ fj] True 1(2,3) by simp
      show ?thesis unfolding sd dl using True ih by simp
    next
      case nlt: False
      show ?thesis unfolding sd dl using nlt by simp
    qed
  qed
qed

lemma down_refines:
  assumes "fits (length h)" "n \<le> length h" "fits i"
  shows "down h (of_nat i) (of_nat n) lt =
    Inr (fst (sift_down lt n h i), i < snd (sift_down lt n h i))"
proof -
  have "fits n" using assms(1,2) by (rule fits_mono)
  then have "fits (snd (sift_down lt n h i))"
    using sift_down_snd [of i lt n h] assms(3) by (auto simp: fits_def)
  then show ?thesis
    unfolding down_def down_loop_refines [OF assms] using assms(3) by (simp add: slt_nat)
qed

lemma sift_up_length: "length (sift_up lt h j) = length h"
proof (induction lt h j rule: sift_up.induct)
  case (1 lt h j)
  show ?case
    by (subst sift_up.simps) (simp add: Let_def 1)
qed

lemma up_zero: "up h 0 lt = Inr h"
proof -
  have "sint (0 - 1 :: go_int) = - 1" by simp
  then have "sint (quo (0 - 1) 2) = 0" by (simp only: sint_quo2) (simp add: signed_divide_int_def)
  then have "quo (0 - 1) 2 = 0" by (simp add: sint_eq_iff)
  then show ?thesis by (subst up.simps) (simp only: Let_def if_True simp_thms)
qed

lemma pred_word: "0 < j \<Longrightarrow> (of_nat j :: go_int) - 1 = of_nat (j - 1)"
  by (cases j) simp_all

lemma parent_word:
  assumes "fits j" "0 < j"
  shows "quo (of_nat j - 1) 2 = of_nat ((j - 1) div 2)" "quo (of_nat j - 1) 2 \<noteq> (of_nat j :: go_int)"
proof -
  have f1: "fits (j - 1)" "fits ((j - 1) div 2)" using assms(1) by (auto intro: fits_mono)
  have "sint (quo (of_nat j - 1) 2) = int (j - 1) sdiv 2"
    by (simp only: pred_word [OF assms(2)] sint_quo2 sint_nat [OF f1(1)])
  also have "\<dots> = int ((j - 1) div 2)" by (simp add: sdiv2_nonneg zdiv_int)
  finally have e: "sint (quo (of_nat j - 1) 2) = int ((j - 1) div 2)" .
  then show "quo (of_nat j - 1) 2 = of_nat ((j - 1) div 2)"
    by (simp only: sint_eq_iff sint_nat [OF f1(2)])
  have "(j - 1) div 2 < j" using assms(2) by simp
  then have "int ((j - 1) div 2) \<noteq> int j" by simp
  then show "quo (of_nat j - 1) 2 \<noteq> (of_nat j :: go_int)"
    by (simp only: sint_eq_iff e sint_nat [OF assms(1)] not_False_eq_True)
qed

lemma up_refines:
  assumes "fits (length h)" "j < length h"
  shows "up h (of_nat j) lt = Inr (sift_up lt h j)"
  using assms
proof (induction lt h j rule: sift_up.induct)
  case (1 lt h j)
  show ?case
  proof (cases "j = 0")
    case True
    then show ?thesis using up_zero [of h lt] by (subst sift_up.simps) simp
  next
    case False
    then have pos: "0 < j" by simp
    have fj: "fits j" using 1(2,3) by (auto intro: fits_mono)
    define i where "i = (j - 1) div 2"
    have ij: "i < j" using pos by (simp add: i_def)
    then have il: "i < length h" using 1(3) by simp
    note pw = parent_word [OF fj pos, folded i_def]
    have pw2: "(of_nat i :: go_int) \<noteq> of_nat j" using pw by simp
    have su: "sift_up lt h j =
        (if \<not> lt (h ! j) (h ! i) then h else sift_up lt (h[i := h ! j, j := h ! i]) i)"
      unfolding i_def using pos by (subst sift_up.simps) (simp add: Let_def)
    have uu: "up h (of_nat j) lt =
        (if \<not> lt (h ! j) (h ! i) then Inr h else up (h[i := h ! j, j := h ! i]) (of_nat i) lt)"
      by (subst up.simps)
        (simp only: Let_def pw(1) pw2 index_nat [OF 1(2,3)] index_nat [OF 1(2) il]
          swap_nat [OF 1(2) il 1(3)] sum.case if_False)
    show ?thesis
    proof (cases "lt (h ! j) (h ! i)")
      case True
      have ih: "up (h[i := h ! j, j := h ! i]) (of_nat i) lt = Inr (sift_up lt (h[i := h ! j, j := h ! i]) i)"
        using 1(1) [OF False i_def] True 1(2) il by simp
      show ?thesis unfolding su uu using True ih by simp
    next
      case nlt: False
      show ?thesis unfolding su uu using nlt by simp
    qed
  qed
qed

fun heapify :: "('a \<Rightarrow> 'a \<Rightarrow> bool) \<Rightarrow> nat \<Rightarrow> 'a list \<Rightarrow> nat \<Rightarrow> 'a list" where
  "heapify lt n h 0 = h"
| "heapify lt n h (Suc k) = heapify lt n (fst (sift_down lt n h k)) k"

lemma heapify_length: "length (heapify lt n h k) = length h"
  by (induction k arbitrary: h) (simp_all add: sift_down_length)

lemma init_loop_refines:
  assumes "fits (length h)" "n \<le> length h" "k \<le> n"
  shows "init_loop lt (of_nat n) h (of_nat k - 1) = Inr (heapify lt n h k)"
  using assms
proof (induction k arbitrary: h)
  case 0
  have "slt (of_nat 0 - 1 :: go_int) 0" by (simp add: slt_def)
  then show ?case by (subst init_loop.simps) simp
next
  case (Suc k)
  have fk: "fits k" using Suc.prems by (auto intro: fits_mono)
  have e: "(of_nat (Suc k) :: go_int) - 1 = of_nat k" by simp
  have nn: "\<not> slt (of_nat k :: go_int) 0" using fk by (rule not_neg_nat)
  have ih: "init_loop lt (of_nat n) (fst (sift_down lt n h k)) (of_nat k - 1) =
      Inr (heapify lt n (fst (sift_down lt n h k)) k)"
    using Suc.prems by (intro Suc.IH) (simp_all add: sift_down_length)
  show ?case
    unfolding e
    apply (subst init_loop.simps)
    apply (simp only: nn down_refines [OF Suc.prems(1,2) fk] sum.case prod.case ih heapify.simps
        not_False_eq_True if_True)
    done
qed

lemma len_half: "fits (length h) \<Longrightarrow> quo (len h) 2 = of_nat (length h div 2)"
proof -
  assume f: "fits (length h)"
  then have f2: "fits (length h div 2)" by (auto intro: fits_mono)
  have "sint (quo (len h) 2) = int (length h) sdiv 2"
    by (simp only: len_def sint_quo2 sint_nat [OF f])
  also have "\<dots> = int (length h div 2)" by (simp add: sdiv2_nonneg zdiv_int)
  finally show ?thesis by (simp only: sint_eq_iff sint_nat [OF f2])
qed

lemma InitFunc_refines:
  assumes "fits (length h)"
  shows "InitFunc h lt = Inr (heapify lt (length h) h (length h div 2))"
  unfolding InitFunc_def Let_def len_half [OF assms]
  unfolding len_def
  using assms by (intro init_loop_refines) simp_all

section \<open>The heap property under the sift loops\<close>

lemma swo_irrefl: "strict_weak_order lt \<Longrightarrow> \<not> lt x x"
  by (simp add: strict_weak_order_def)

lemma swo_trans: "strict_weak_order lt \<Longrightarrow> lt x y \<Longrightarrow> lt y z \<Longrightarrow> lt x z"
  unfolding strict_weak_order_def by blast

lemma swo_asym: "strict_weak_order lt \<Longrightarrow> lt x y \<Longrightarrow> \<not> lt y x"
  unfolding strict_weak_order_def by blast

lemma swo_neg_trans: "strict_weak_order lt \<Longrightarrow> \<not> lt x y \<Longrightarrow> \<not> lt y z \<Longrightarrow> \<not> lt x z"
  unfolding strict_weak_order_def by metis

lemma swo_lt_le: "strict_weak_order lt \<Longrightarrow> lt x y \<Longrightarrow> \<not> lt z y \<Longrightarrow> lt x z"
  unfolding strict_weak_order_def by metis

lemma swo_le_lt: "strict_weak_order lt \<Longrightarrow> \<not> lt y x \<Longrightarrow> lt y z \<Longrightarrow> lt x z"
  unfolding strict_weak_order_def by metis

lemma parent_left [simp]: "parent (2 * i + 1) = i" "parent (Suc (2 * i)) = i"
  by (simp_all add: parent_def)

lemma parent_right [simp]: "parent (2 * i + 2) = i" "parent (Suc (Suc (2 * i))) = i"
  by (simp_all add: parent_def)

lemma parent_cases: "0 < c \<Longrightarrow> parent c = i \<Longrightarrow> c = 2 * i + 1 \<or> c = 2 * i + 2"
  unfolding parent_def by arith

lemma parent_lt: "0 < c \<Longrightarrow> parent c < c"
  unfolding parent_def by arith

lemma heap_inv_iff: "heap_inv lt h \<longleftrightarrow> heap_from lt 0 (length h) h"
proof
  assume a: "heap_inv lt h"
  show "heap_from lt 0 (length h) h"
    unfolding heap_from_def
  proof (intro allI impI)
    fix j assume j: "0 < j \<and> j < length h \<and> 0 \<le> parent j"
    then have p: "parent j < length h" using parent_lt [of j] by simp
    from j parent_cases [of j "parent j"] have "j = 2 * parent j + 1 \<or> j = 2 * parent j + 2" by simp
    then show "\<not> lt (h ! j) (h ! parent j)"
      using a p j unfolding heap_inv_def by (metis atLeastLessThan_iff le0)
  qed
next
  assume a: "heap_from lt 0 (length h) h"
  show "heap_inv lt h"
    unfolding heap_inv_def
  proof (intro ballI conjI impI)
    fix i assume "2 * i + 1 < length h"
    then show "\<not> lt (h ! (2 * i + 1)) (h ! i)"
      using a [unfolded heap_from_def, rule_format, of "2 * i + 1"] by (simp add: parent_left)
  next
    fix i assume "2 * i + 2 < length h"
    then show "\<not> lt (h ! (2 * i + 2)) (h ! i)"
      using a [unfolded heap_from_def, rule_format, of "2 * i + 2"] by (simp add: parent_right)
  qed
qed

lemma down_inv_leaf:
  assumes "down_inv lt k n h i" "n \<le> 2 * i + 1"
  shows "heap_from lt k n h"
  unfolding heap_from_def
proof (intro allI impI)
  fix j assume j: "0 < j \<and> j < n \<and> k \<le> parent j"
  have "parent j \<noteq> i"
  proof
    assume "parent j = i"
    with j parent_cases [of j i] have "2 * i + 1 \<le> j" by auto
    with j assms(2) show False by simp
  qed
  with j assms(1) show "\<not> lt (h ! j) (h ! parent j)" unfolding down_inv_def by blast
qed

lemma min_child_stop:
  assumes swo: "strict_weak_order lt"
    and j: "j = (if 2 * i + 2 < n \<and> lt (h ! (2 * i + 2)) (h ! (2 * i + 1)) then 2 * i + 2 else 2 * i + 1)"
    and stop: "\<not> lt (h ! j) (h ! i)"
    and c: "0 < c" "c < n" "parent c = i"
  shows "\<not> lt (h ! c) (h ! i)"
proof -
  define l where "l = 2 * i + 1"
  define r where "r = 2 * i + 2"
  have j': "j = (if r < n \<and> lt (h ! r) (h ! l) then r else l)"
    using j by (simp add: l_def r_def)
  have l: "\<not> lt (h ! l) (h ! i)"
  proof (cases "r < n \<and> lt (h ! r) (h ! l)")
    case True
    with j' stop have "\<not> lt (h ! r) (h ! i)" by simp
    with True swo_trans [OF swo] show ?thesis by blast
  next
    case False
    with j' stop show ?thesis by simp
  qed
  have r: "\<not> lt (h ! r) (h ! i)" if "r < n"
  proof (cases "lt (h ! r) (h ! l)")
    case True
    with that j' stop show ?thesis by simp
  next
    case False
    with l swo_neg_trans [OF swo] show ?thesis by blast
  qed
  from c parent_cases [of c i] have "c = l \<or> c = r" by (simp add: l_def r_def)
  with l r c show ?thesis by auto
qed

lemma down_inv_stop:
  assumes swo: "strict_weak_order lt"
    and inv: "down_inv lt k n h i"
    and c: "2 * i + 1 < n"
    and j: "j = (if 2 * i + 2 < n \<and> lt (h ! (2 * i + 2)) (h ! (2 * i + 1)) then 2 * i + 2 else 2 * i + 1)"
    and stop: "\<not> lt (h ! j) (h ! i)"
  shows "heap_from lt k n h"
  unfolding heap_from_def
proof (intro allI impI)
  fix c assume cc: "0 < c \<and> c < n \<and> k \<le> parent c"
  show "\<not> lt (h ! c) (h ! parent c)"
  proof (cases "parent c = i")
    case False
    with cc inv show ?thesis unfolding down_inv_def by blast
  next
    case True
    with min_child_stop [OF swo j stop, of c] cc show ?thesis by simp
  qed
qed

lemma down_inv_step:
  assumes swo: "strict_weak_order lt"
    and inv: "down_inv lt k n h i"
    and ki: "k \<le> i"
    and nl: "n \<le> length h"
    and c: "2 * i + 1 < n"
    and j: "j = (if 2 * i + 2 < n \<and> lt (h ! (2 * i + 2)) (h ! (2 * i + 1)) then 2 * i + 2 else 2 * i + 1)"
    and go: "lt (h ! j) (h ! i)"
  shows "down_inv lt k n (h[i := h ! j, j := h ! i]) j"
proof -
  define l where "l = 2 * i + 1"
  define r where "r = 2 * i + 2"
  define h' where "h' = h[i := h ! j, j := h ! i]"
  have j': "j = (if r < n \<and> lt (h ! r) (h ! l) then r else l)"
    using j by (simp add: l_def r_def)
  have jn: "j < n" using j' c by (simp add: l_def split: if_splits)
  have ij: "i < j" using j' by (simp add: l_def r_def split: if_splits)
  have pj: "parent j = i" using j' by (simp add: l_def r_def split: if_splits)
  have len: "i < length h" "j < length h" using jn ij nl by simp_all
  have hj: "h' ! j = h ! i" using len by (simp add: h'_def)
  have hi: "h' ! i = h ! j" using len ij by (simp add: h'_def)
  have ho: "h' ! c = h ! c" if "c \<noteq> i" "c \<noteq> j" for c
    using that by (simp add: h'_def)
  have sib: "\<not> lt (h ! c) (h ! j)" if "0 < c" "c < n" "parent c = i" for c
  proof -
    from that parent_cases [of c i] have "c = l \<or> c = r" by (simp add: l_def r_def)
    then show ?thesis
    proof
      assume "c = l"
      then show ?thesis using j' swo_asym [OF swo] swo_irrefl [OF swo] by (auto split: if_splits)
    next
      assume "c = r"
      then show ?thesis using j' that(2) swo_irrefl [OF swo] by (auto split: if_splits)
    qed
  qed
  have part1: "\<not> lt (h' ! c) (h' ! parent c)"
    if cc: "0 < c \<and> c < n \<and> k \<le> parent c \<and> parent c \<noteq> j" for c
  proof (cases "parent c = i")
    case True
    show ?thesis
    proof (cases "c = j")
      case True
      then show ?thesis using hj hi pj swo_asym [OF swo go] by simp
    next
      case False
      have "c \<noteq> i" using True cc parent_lt [of c] by auto
      then show ?thesis using ho [OF _ False] hi True sib cc by simp
    qed
  next
    case False
    show ?thesis
    proof (cases "c = i")
      case True
      then have "0 < i" "k \<le> parent i" using cc by simp_all
      then have "\<not> lt (h ! j) (h ! parent i)"
        using inv jn ij pj unfolding down_inv_def by auto
      moreover have "parent i \<noteq> i" "parent i \<noteq> j"
        using parent_lt [OF \<open>0 < i\<close>] ij by simp_all
      ultimately show ?thesis using True hi ho by simp
    next
      case ci: False
      have "c \<noteq> j" using False pj by auto
      moreover have "\<not> lt (h ! c) (h ! parent c)"
        using inv cc False unfolding down_inv_def by blast
      ultimately show ?thesis using ho ci False cc by simp
    qed
  qed
  have part2: "\<not> lt (h' ! c) (h' ! parent j)"
    if cc: "0 < c \<and> c < n \<and> parent c = j \<and> 0 < j \<and> k \<le> parent j" for c
  proof -
    have "j < c" using cc parent_lt [of c] by auto
    then have "c \<noteq> i" "c \<noteq> j" using ij by simp_all
    moreover have "\<not> lt (h ! c) (h ! parent c)"
      using inv cc ij ki unfolding down_inv_def by auto
    ultimately show ?thesis using ho hi pj cc by simp
  qed
  show ?thesis
    unfolding down_inv_def h'_def [symmetric] using part1 part2 by blast
qed

lemma sift_down_heap:
  assumes "strict_weak_order lt" "down_inv lt k n h i" "k \<le> i" "n \<le> length h"
  shows "heap_from lt k n (fst (sift_down lt n h i))"
  using assms
proof (induction lt n h i rule: sift_down.induct)
  case (1 lt n h i)
  show ?case
  proof (cases "n \<le> 2 * i + 1")
    case True
    then show ?thesis
      using down_inv_leaf [OF 1(3) True] by (subst sift_down.simps) simp
  next
    case False
    then have c: "2 * i + 1 < n" by simp
    define j where "j = (if 2 * i + 2 < n \<and> lt (h ! (2 * i + 2)) (h ! (2 * i + 1)) then 2 * i + 2 else 2 * i + 1)"
    have sd: "sift_down lt n h i =
        (if \<not> lt (h ! j) (h ! i) then (h, i) else sift_down lt n (h[i := h ! j, j := h ! i]) j)"
      using False by (subst sift_down.simps) (simp only: Let_def if_False flip: j_def)
    show ?thesis
    proof (cases "lt (h ! j) (h ! i)")
      case True
      have ij: "i < j" by (simp add: j_def)
      have "down_inv lt k n (h[i := h ! j, j := h ! i]) j"
        using down_inv_step [OF 1(2,3,4,5) c j_def True] .
      then have "heap_from lt k n (fst (sift_down lt n (h[i := h ! j, j := h ! i]) j))"
        using 1(1) [OF False j_def _ 1(2)] True 1(4,5) ij by simp
      then show ?thesis unfolding sd using True by simp
    next
      case nlt: False
      show ?thesis unfolding sd using nlt down_inv_stop [OF 1(2,3) c j_def nlt] by simp
    qed
  qed
qed

lemma up_inv_step:
  assumes swo: "strict_weak_order lt"
    and inv: "up_inv lt n h j"
    and nl: "n \<le> length h"
    and jn: "j < n"
    and pos: "0 < j"
    and go: "lt (h ! j) (h ! parent j)"
  shows "up_inv lt n (h[parent j := h ! j, j := h ! parent j]) (parent j)"
proof -
  define p where "p = parent j"
  define h' where "h' = h[p := h ! j, j := h ! p]"
  have pj: "p < j" using parent_lt [OF pos] by (simp add: p_def)
  have len: "p < length h" "j < length h" using pj jn nl by simp_all
  have hj: "h' ! j = h ! p" using len by (simp add: h'_def)
  have hp: "h' ! p = h ! j" using len pj by (simp add: h'_def)
  have ho: "h' ! c = h ! c" if "c \<noteq> p" "c \<noteq> j" for c
    using that by (simp add: h'_def)
  have go': "lt (h ! j) (h ! p)" using go by (simp add: p_def)
  have ok: "\<not> lt (h ! c) (h ! parent c)" if "0 < c" "c < n" "c \<noteq> j" for c
    using inv that unfolding up_inv_def by blast
  have part1: "\<not> lt (h' ! c) (h' ! parent c)" if cc: "0 < c \<and> c < n \<and> c \<noteq> p" for c
  proof (cases "c = j")
    case True
    then show ?thesis using hj hp swo_asym [OF swo go'] by (simp add: p_def [symmetric])
  next
    case False
    then have hc: "h' ! c = h ! c" using cc ho by simp
    consider "parent c = j" | "parent c = p" | "parent c \<noteq> j" "parent c \<noteq> p" by blast
    then show ?thesis
    proof cases
      case 1
      then have "\<not> lt (h ! c) (h ! parent j)"
        using inv cc pos unfolding up_inv_def by blast
      then show ?thesis using 1 hc hj by (simp add: p_def [symmetric])
    next
      case 2
      have "\<not> lt (h ! c) (h ! p)" using ok [of c] cc False 2 by simp
      then have "\<not> lt (h ! c) (h ! j)" using swo_trans [OF swo _ go'] by blast
      then show ?thesis using 2 hc hp by simp
    next
      case 3
      then show ?thesis using ok [of c] cc False hc ho by simp
    qed
  qed
  have part2: "\<not> lt (h' ! c) (h' ! parent p)" if cc: "0 < c \<and> c < n \<and> parent c = p \<and> 0 < p" for c
  proof -
    have pp: "parent p < p" using cc parent_lt by blast
    then have hpp: "h' ! parent p = h ! parent p" using ho pj by simp
    have okp: "\<not> lt (h ! p) (h ! parent p)" using ok [of p] cc pj jn by simp
    show ?thesis
    proof (cases "c = j")
      case True
      then show ?thesis using hj hpp okp by simp
    next
      case False
      have "c \<noteq> p" using cc parent_lt [of c] by auto
      then have hc: "h' ! c = h ! c" using False ho by simp
      have "\<not> lt (h ! c) (h ! p)" using ok [of c] cc False by simp
      then have "\<not> lt (h ! c) (h ! parent p)" using okp swo_neg_trans [OF swo] by blast
      then show ?thesis using hc hpp by simp
    qed
  qed
  show ?thesis
    unfolding up_inv_def p_def [symmetric] h'_def [symmetric] using part1 part2 by blast
qed

lemma sift_up_heap:
  assumes "strict_weak_order lt" "up_inv lt n h j" "n \<le> length h" "j < n"
  shows "heap_from lt 0 n (sift_up lt h j)"
  using assms
proof (induction lt h j rule: sift_up.induct)
  case (1 lt h j)
  show ?case
  proof (cases "j = 0")
    case True
    then have "sift_up lt h j = h" by (subst sift_up.simps) simp
    moreover have "heap_from lt 0 n h"
      using 1(3) True unfolding up_inv_def heap_from_def by simp
    ultimately show ?thesis by simp
  next
    case False
    then have pos: "0 < j" by simp
    have su: "sift_up lt h j =
        (if \<not> lt (h ! j) (h ! parent j) then h
         else sift_up lt (h[parent j := h ! j, j := h ! parent j]) (parent j))"
      unfolding parent_def using pos by (subst sift_up.simps) (simp add: Let_def)
    show ?thesis
    proof (cases "lt (h ! j) (h ! parent j)")
      case True
      have "up_inv lt n (h[parent j := h ! j, j := h ! parent j]) (parent j)"
        using up_inv_step [OF 1(2,3,4,5) pos True] .
      moreover have "parent j < n" using parent_lt [OF pos] 1(5) by simp
      ultimately have "heap_from lt 0 n (sift_up lt (h[parent j := h ! j, j := h ! parent j]) (parent j))"
        using 1(1) [OF False _ _ 1(2)] True 1(4) by (simp add: parent_def)
      then show ?thesis unfolding su using True by simp
    next
      case nlt: False
      have "heap_from lt 0 n h"
        unfolding heap_from_def using 1(3) nlt unfolding up_inv_def by metis
      then show ?thesis unfolding su using nlt by simp
    qed
  qed
qed

lemma sift_down_mset:
  assumes "n \<le> length h"
  shows "mset (fst (sift_down lt n h i)) = mset h"
  using assms
proof (induction lt n h i rule: sift_down.induct)
  case (1 lt n h i)
  show ?case
  proof (cases "n \<le> 2 * i + 1")
    case True
    then show ?thesis by (subst sift_down.simps) simp
  next
    case False
    define j where "j = (if 2 * i + 2 < n \<and> lt (h ! (2 * i + 2)) (h ! (2 * i + 1)) then 2 * i + 2 else 2 * i + 1)"
    have sd: "sift_down lt n h i =
        (if \<not> lt (h ! j) (h ! i) then (h, i) else sift_down lt n (h[i := h ! j, j := h ! i]) j)"
      using False by (subst sift_down.simps) (simp only: Let_def if_False flip: j_def)
    have jn: "j < n" "i < j" using False by (simp_all add: j_def)
    then have len: "i < length h" "j < length h" using 1(2) by simp_all
    show ?thesis
    proof (cases "lt (h ! j) (h ! i)")
      case True
      have "mset (fst (sift_down lt n (h[i := h ! j, j := h ! i]) j)) = mset (h[i := h ! j, j := h ! i])"
        using 1(1) [OF False j_def] True 1(2) by simp
      also have "\<dots> = mset h" by (rule mset_swap [OF len(2) len(1)])
      finally show ?thesis unfolding sd using True by simp
    next
      case nlt: False
      show ?thesis unfolding sd using nlt by simp
    qed
  qed
qed

lemma sift_down_drop: "drop n (fst (sift_down lt n h i)) = drop n h"
proof (induction lt n h i rule: sift_down.induct)
  case (1 lt n h i)
  show ?case
  proof (cases "n \<le> 2 * i + 1")
    case True
    then show ?thesis by (subst sift_down.simps) simp
  next
    case False
    define j where "j = (if 2 * i + 2 < n \<and> lt (h ! (2 * i + 2)) (h ! (2 * i + 1)) then 2 * i + 2 else 2 * i + 1)"
    have sd: "sift_down lt n h i =
        (if \<not> lt (h ! j) (h ! i) then (h, i) else sift_down lt n (h[i := h ! j, j := h ! i]) j)"
      using False by (subst sift_down.simps) (simp only: Let_def if_False flip: j_def)
    have jn: "j < n" "i < n" using False by (simp_all add: j_def)
    show ?thesis
    proof (cases "lt (h ! j) (h ! i)")
      case True
      have "drop n (fst (sift_down lt n (h[i := h ! j, j := h ! i]) j)) = drop n (h[i := h ! j, j := h ! i])"
        using 1 [OF False j_def] True by simp
      also have "\<dots> = drop n h" using jn by (simp add: drop_update_cancel)
      finally show ?thesis unfolding sd using True by simp
    next
      case nlt: False
      show ?thesis unfolding sd using nlt by simp
    qed
  qed
qed

lemma sift_down_take:
  assumes "n \<le> length h"
  shows "sift_down lt n (take n h) i = (take n (fst (sift_down lt n h i)), snd (sift_down lt n h i))"
  using assms
proof (induction lt n h i rule: sift_down.induct)
  case (1 lt n h i)
  show ?case
  proof (cases "n \<le> 2 * i + 1")
    case True
    then show ?thesis by (subst (1 2 3) sift_down.simps) simp
  next
    case False
    define j where "j = (if 2 * i + 2 < n \<and> lt (h ! (2 * i + 2)) (h ! (2 * i + 1)) then 2 * i + 2 else 2 * i + 1)"
    have sd: "sift_down lt n h i =
        (if \<not> lt (h ! j) (h ! i) then (h, i) else sift_down lt n (h[i := h ! j, j := h ! i]) j)"
      using False by (subst sift_down.simps) (simp only: Let_def if_False flip: j_def)
    have jn: "j < n" "i < n" using False by (simp_all add: j_def)
    have j2: "j = (if 2 * i + 2 < n \<and> lt (take n h ! (2 * i + 2)) (take n h ! (2 * i + 1)) then 2 * i + 2 else 2 * i + 1)"
      using False by (simp add: j_def)
    have sd2: "sift_down lt n (take n h) i =
        (if \<not> lt (take n h ! j) (take n h ! i) then (take n h, i)
         else sift_down lt n ((take n h)[i := take n h ! j, j := take n h ! i]) j)"
      using False by (subst sift_down.simps) (simp only: Let_def if_False flip: j2)
    have tk: "take n h ! j = h ! j" "take n h ! i = h ! i" using jn by simp_all
    show ?thesis
    proof (cases "lt (h ! j) (h ! i)")
      case True
      have "sift_down lt n (take n (h[i := h ! j, j := h ! i])) j =
        (take n (fst (sift_down lt n (h[i := h ! j, j := h ! i]) j)),
         snd (sift_down lt n (h[i := h ! j, j := h ! i]) j))"
        using 1(1) [OF False j_def] True 1(2) by simp
      then show ?thesis unfolding sd sd2 tk using True jn by (simp add: take_update_swap)
    next
      case nlt: False
      show ?thesis unfolding sd sd2 tk using nlt by simp
    qed
  qed
qed

lemma sift_up_mset:
  assumes "j < length h"
  shows "mset (sift_up lt h j) = mset h"
  using assms
proof (induction lt h j rule: sift_up.induct)
  case (1 lt h j)
  show ?case
  proof (cases "j = 0")
    case True
    then show ?thesis by (subst sift_up.simps) simp
  next
    case False
    then have pos: "0 < j" by simp
    have su: "sift_up lt h j =
        (if \<not> lt (h ! j) (h ! parent j) then h
         else sift_up lt (h[parent j := h ! j, j := h ! parent j]) (parent j))"
      unfolding parent_def using pos by (subst sift_up.simps) (simp add: Let_def)
    have len: "parent j < length h" using parent_lt [OF pos] 1(2) by simp
    show ?thesis
    proof (cases "lt (h ! j) (h ! parent j)")
      case True
      have "mset (sift_up lt (h[parent j := h ! j, j := h ! parent j]) (parent j)) =
          mset (h[parent j := h ! j, j := h ! parent j])"
        using 1(1) [OF False] True len by (simp add: parent_def)
      also have "\<dots> = mset h" by (rule mset_swap [OF 1(2) len])
      finally show ?thesis unfolding su using True by simp
    next
      case nlt: False
      show ?thesis unfolding su using nlt by simp
    qed
  qed
qed

lemma sift_up_drop:
  assumes "j < n"
  shows "drop n (sift_up lt h j) = drop n h"
  using assms
proof (induction lt h j rule: sift_up.induct)
  case (1 lt h j)
  show ?case
  proof (cases "j = 0")
    case True
    then show ?thesis by (subst sift_up.simps) simp
  next
    case False
    then have pos: "0 < j" by simp
    have su: "sift_up lt h j =
        (if \<not> lt (h ! j) (h ! parent j) then h
         else sift_up lt (h[parent j := h ! j, j := h ! parent j]) (parent j))"
      unfolding parent_def using pos by (subst sift_up.simps) (simp add: Let_def)
    have pn: "parent j < n" using parent_lt [OF pos] 1(2) by simp
    show ?thesis
    proof (cases "lt (h ! j) (h ! parent j)")
      case True
      have "drop n (sift_up lt (h[parent j := h ! j, j := h ! parent j]) (parent j)) =
          drop n (h[parent j := h ! j, j := h ! parent j])"
        using 1(1) [OF False] True pn by (simp add: parent_def)
      also have "\<dots> = drop n h" using pn 1(2) by (simp add: drop_update_cancel)
      finally show ?thesis unfolding su using True by simp
    next
      case nlt: False
      show ?thesis unfolding su using nlt by simp
    qed
  qed
qed

lemma heap_from_take: "n \<le> length h \<Longrightarrow> heap_from lt 0 n h \<longleftrightarrow> heap_inv lt (take n h)"
proof -
  assume n: "n \<le> length h"
  have "heap_from lt 0 n (take n h) \<longleftrightarrow> heap_from lt 0 n h"
    unfolding heap_from_def
  proof (intro iff_allI imp_cong refl)
    fix j assume "0 < j \<and> j < n \<and> 0 \<le> parent j"
    then have "j < n" "parent j < n" using parent_lt [of j] by auto
    then show "(\<not> lt (take n h ! j) (take n h ! parent j)) = (\<not> lt (h ! j) (h ! parent j))"
      by simp
  qed
  then show ?thesis using n by (simp add: heap_inv_iff)
qed

lemma root_min:
  assumes swo: "strict_weak_order lt" and hp: "heap_from lt 0 n h" and c: "c < n"
  shows "\<not> lt (h ! c) (h ! 0)"
  using c
proof (induction c rule: less_induct)
  case (less c)
  show ?case
  proof (cases "c = 0")
    case True
    then show ?thesis using swo_irrefl [OF swo] by simp
  next
    case False
    then have pl: "parent c < c" using parent_lt by simp
    have "\<not> lt (h ! parent c) (h ! 0)" using less.IH [OF pl] pl less.prems by simp
    moreover have "\<not> lt (h ! c) (h ! parent c)"
      using hp False less.prems unfolding heap_from_def by simp
    ultimately show ?thesis using swo_neg_trans [OF swo] by blast
  qed
qed

lemma heap_from_top: "heap_from lt (n div 2) n h"
  unfolding heap_from_def parent_def by (intro allI impI) arith

lemma heapify_heap:
  assumes "strict_weak_order lt" "heap_from lt k n h" "n \<le> length h"
  shows "heap_from lt 0 n (heapify lt n h k)"
  using assms(2,3)
proof (induction k arbitrary: h)
  case 0
  then show ?case by simp
next
  case (Suc k)
  have "down_inv lt k n h k"
    unfolding down_inv_def
  proof (intro conjI allI impI)
    fix j assume "0 < j \<and> j < n \<and> k \<le> parent j \<and> parent j \<noteq> k"
    then show "\<not> lt (h ! j) (h ! parent j)"
      using Suc.prems(1) unfolding heap_from_def by simp
  next
    fix j assume "0 < j \<and> j < n \<and> parent j = k \<and> 0 < k \<and> k \<le> parent k"
    then show "\<not> lt (h ! j) (h ! parent k)" using parent_lt [of k] by simp
  qed
  then have "heap_from lt k n (fst (sift_down lt n h k))"
    using sift_down_heap [OF assms(1) _ _ Suc.prems(2)] by simp
  then show ?case using Suc.IH Suc.prems(2) by (simp add: sift_down_length)
qed

lemma heapify_mset: "n \<le> length h \<Longrightarrow> mset (heapify lt n h k) = mset h"
  by (induction k arbitrary: h) (simp_all add: sift_down_length sift_down_mset)

lemma sift_down_noop:
  assumes "heap_from lt 0 n h"
  shows "sift_down lt n h i = (h, i)"
proof (cases "n \<le> 2 * i + 1")
  case True
  then show ?thesis by (subst sift_down.simps) simp
next
  case False
  define j where "j = (if 2 * i + 2 < n \<and> lt (h ! (2 * i + 2)) (h ! (2 * i + 1)) then 2 * i + 2 else 2 * i + 1)"
  have sd: "sift_down lt n h i =
      (if \<not> lt (h ! j) (h ! i) then (h, i) else sift_down lt n (h[i := h ! j, j := h ! i]) j)"
    using False by (subst sift_down.simps) (simp only: Let_def if_False flip: j_def)
  have "0 < j" "j < n" "parent j = i" using False by (simp_all add: j_def)
  then have "\<not> lt (h ! j) (h ! i)" using assms unfolding heap_from_def by auto
  then show ?thesis unfolding sd by simp
qed

lemma heapify_noop: "heap_from lt 0 n h \<Longrightarrow> heapify lt n h k = h"
  by (induction k) (simp_all add: sift_down_noop)

section \<open>The public operations on a well-formed heap\<close>

definition fix_at :: "('a \<Rightarrow> 'a \<Rightarrow> bool) \<Rightarrow> nat \<Rightarrow> 'a list \<Rightarrow> nat \<Rightarrow> 'a list" where
  "fix_at lt n h i =
    (if i < snd (sift_down lt n h i) then fst (sift_down lt n h i)
     else sift_up lt (fst (sift_down lt n h i)) i)"

lemma in_range_conv:
  assumes "fits (length h)" "in_range h i"
  shows "i = of_nat (nat (sint i))" "nat (sint i) < length h"
proof -
  show l: "nat (sint i) < length h" using assms(2) unfolding in_range_def by linarith
  then have "fits (nat (sint i))" using assms(1) by (auto intro: fits_mono)
  then have "sint (of_nat (nat (sint i)) :: go_int) = sint i"
    using assms(2) by (simp add: sint_nat in_range_def)
  then show "i = of_nat (nat (sint i))" by (simp only: sint_eq_iff)
qed

lemma len_pred: "h \<noteq> [] \<Longrightarrow> len h - 1 = of_nat (length h - 1)"
  unfolding len_def by (rule pred_word) simp

lemma index_zero: "h \<noteq> [] \<Longrightarrow> index h 0 = Inr (h ! 0)"
  by (simp add: index_def in_range_def at_def)

lemma index_empty: "index [] i = Inl (IndexOutOfRange, [])"
  by (simp add: index_def in_range_def)

lemma store_nat: "fits (length h) \<Longrightarrow> k < length h \<Longrightarrow> store h (of_nat k) v = Inr (h[k := v])"
  by (simp add: store_def in_range_nat sint_nat fits_mono)

lemma slice_to_nat: "fits (length h) \<Longrightarrow> k \<le> length h \<Longrightarrow> slice_to h (of_nat k) = Inr (take k h)"
  by (simp add: slice_to_def sint_nat fits_mono)

lemma PushFunc_refines:
  assumes "fits (Suc (length h))"
  shows "PushFunc h x lt = Inr (sift_up lt (h @ [x]) (length h))"
proof -
  have e: "len (h @ [x]) - 1 = of_nat (length h)" by (simp add: len_def)
  have f: "fits (length (h @ [x]))" using assms by simp
  show ?thesis
    unfolding PushFunc_def Let_def e by (rule up_refines [OF f]) simp
qed

lemma PopFunc_empty: "PopFunc [] lt = Inl (IndexOutOfRange, [])"
  by (simp add: PopFunc_def index_empty)

lemma PopFunc_refines:
  assumes f: "fits (length h)" and ne: "h \<noteq> []"
  shows "PopFunc h lt =
    Inr (h ! 0, fst (sift_down lt (length h - 1) (take (length h - 1) (h[0 := h ! (length h - 1)])) 0))"
proof -
  define n where "n = length h - 1"
  define h1 where "h1 = h[0 := h ! n]"
  define h2 where "h2 = take n h1"
  have nl: "n < length h" using ne by (simp add: n_def)
  have i0: "index h 0 = Inr (h ! 0)" using ne by (rule index_zero)
  have i1: "index h (of_nat n) = Inr (h ! n)" using f nl by (rule index_nat)
  have st: "store h 0 (h ! n) = Inr h1"
    using store_nat [OF f, of 0 "h ! n"] ne by (simp add: h1_def)
  have sl: "slice_to h1 (of_nat n) = Inr h2"
    unfolding h2_def using f nl by (intro slice_to_nat) (simp_all add: h1_def)
  have l2: "length h2 = n" using nl by (simp add: h2_def h1_def)
  have f2: "fits (length h2)" using f nl l2 by (auto intro: fits_mono)
  have dn: "down h2 0 (of_nat n) lt = Inr (fst (sift_down lt n h2 0), 0 < snd (sift_down lt n h2 0))"
    using down_refines [OF f2, of n 0 lt] l2 by (simp add: fits_def)
  show ?thesis
    unfolding PopFunc_def Let_def len_pred [OF ne] n_def [symmetric]
    by (simp only: i0 i1 st sl dn sum.case prod.case) (simp only: h2_def h1_def)
qed

lemma FixFunc_refines:
  assumes f: "fits (length h)" and i: "i < length h"
  shows "FixFunc h (of_nat i) lt = Inr (fix_at lt (length h) h i)"
proof -
  have fi: "fits i" using f i by (auto intro: fits_mono)
  have l1: "length (fst (sift_down lt (length h) h i)) = length h" by (rule sift_down_length)
  have u: "up (fst (sift_down lt (length h) h i)) (of_nat i) lt =
      Inr (sift_up lt (fst (sift_down lt (length h) h i)) i)"
    by (rule up_refines) (simp_all only: l1 f i)
  show ?thesis
    unfolding FixFunc_def len_def down_refines [OF f order_refl fi] fix_at_def
    using u by simp
qed

lemma word_nat_neq: "fits a \<Longrightarrow> fits b \<Longrightarrow> (of_nat a :: go_int) \<noteq> of_nat b \<longleftrightarrow> a \<noteq> b"
  by (simp only: sint_eq_iff sint_nat) simp

lemma RemoveFunc_refines:
  assumes f: "fits (length h)" and i: "i < length h"
  shows "RemoveFunc h (of_nat i) lt =
    Inr (h ! i, take (length h - 1)
      (if length h - 1 \<noteq> i then fix_at lt (length h - 1) (h[i := h ! (length h - 1)]) i else h))"
proof -
  define n where "n = length h - 1"
  define h1 where "h1 = h[i := h ! n]"
  have ne: "h \<noteq> []" using i by auto
  have nl: "n < length h" using ne by (simp add: n_def)
  have fi: "fits i" and fn: "fits n" using f i nl by (auto intro: fits_mono)
  have ix: "index h (of_nat i) = Inr (h ! i)" using f i by (rule index_nat)
  have i1: "index h (of_nat n) = Inr (h ! n)" using f nl by (rule index_nat)
  have st: "store h (of_nat i) (h ! n) = Inr h1"
    unfolding h1_def using f i by (rule store_nat)
  have l1: "length h1 = length h" by (simp add: h1_def)
  have f1: "fits (length h1)" using f l1 by simp
  have nl1: "n \<le> length h1" using nl l1 by simp
  have dn: "down h1 (of_nat i) (of_nat n) lt =
      Inr (fst (sift_down lt n h1 i), i < snd (sift_down lt n h1 i))"
    using f1 nl1 fi by (rule down_refines)
  have l2: "length (fst (sift_down lt n h1 i)) = length h" by (simp add: sift_down_length l1)
  have u: "up (fst (sift_down lt n h1 i)) (of_nat i) lt =
      Inr (sift_up lt (fst (sift_down lt n h1 i)) i)"
    by (rule up_refines) (simp_all only: l2 f i)
  have neq: "((of_nat n :: go_int) \<noteq> of_nat i) = (n \<noteq> i)" using fn fi by (rule word_nat_neq)
  have sl: "slice_to g (of_nat n) = Inr (take n g)" if "length g = length h" for g
    using that f nl by (intro slice_to_nat) simp_all
  show ?thesis
  proof (cases "n = i")
    case True
    show ?thesis
      unfolding RemoveFunc_def Let_def len_pred [OF ne] n_def [symmetric]
      using True ix sl [of h] by simp
  next
    case False
    have lf: "length (fix_at lt n h1 i) = length h"
      by (simp add: fix_at_def sift_up_length l2)
    show ?thesis
      unfolding RemoveFunc_def Let_def len_pred [OF ne] n_def [symmetric] h1_def [symmetric]
      apply (simp only: neq False ix i1 st dn sum.case prod.case if_True not_False_eq_True)
      apply (cases "i < snd (sift_down lt n h1 i)")
       apply (simp_all only: if_True if_False not_True_eq_False not_False_eq_True u sum.case
          sl [OF l2] sl [OF lf] fix_at_def sift_up_length)
      using sl [of "sift_up lt (fst (sift_down lt n h1 i)) i"] l2
      apply (simp_all add: sift_up_length)
      done
  qed
qed

lemma sift_down_moved:
  assumes "i < snd (sift_down lt n h i)"
  shows "\<exists>c. 0 < c \<and> c < n \<and> parent c = i \<and> lt (h ! c) (h ! i)"
proof (cases "n \<le> 2 * i + 1")
  case True
  then have "sift_down lt n h i = (h, i)" by (subst sift_down.simps) simp
  with assms show ?thesis by simp
next
  case False
  define j where "j = (if 2 * i + 2 < n \<and> lt (h ! (2 * i + 2)) (h ! (2 * i + 1)) then 2 * i + 2 else 2 * i + 1)"
  have sd: "sift_down lt n h i =
      (if \<not> lt (h ! j) (h ! i) then (h, i) else sift_down lt n (h[i := h ! j, j := h ! i]) j)"
    using False by (subst sift_down.simps) (simp only: Let_def if_False flip: j_def)
  have j: "0 < j" "j < n" "parent j = i" using False by (simp_all add: j_def)
  have "lt (h ! j) (h ! i)" using assms unfolding sd by (auto split: if_splits)
  with j show ?thesis by blast
qed

lemma sift_down_unmoved:
  assumes swo: "strict_weak_order lt" and un: "\<not> i < snd (sift_down lt n h i)"
  shows "fst (sift_down lt n h i) = h \<and> (\<forall>c. 0 < c \<and> c < n \<and> parent c = i \<longrightarrow> \<not> lt (h ! c) (h ! i))"
proof (cases "n \<le> 2 * i + 1")
  case True
  then have "sift_down lt n h i = (h, i)" by (subst sift_down.simps) simp
  moreover have "\<not> (0 < c \<and> c < n \<and> parent c = i)" for c
    using True parent_cases [of c i] by auto
  ultimately show ?thesis by auto
next
  case False
  define j where "j = (if 2 * i + 2 < n \<and> lt (h ! (2 * i + 2)) (h ! (2 * i + 1)) then 2 * i + 2 else 2 * i + 1)"
  have sd: "sift_down lt n h i =
      (if \<not> lt (h ! j) (h ! i) then (h, i) else sift_down lt n (h[i := h ! j, j := h ! i]) j)"
    using False by (subst sift_down.simps) (simp only: Let_def if_False flip: j_def)
  have ij: "i < j" by (simp add: j_def)
  have stop: "\<not> lt (h ! j) (h ! i)"
  proof
    assume "lt (h ! j) (h ! i)"
    then have "sift_down lt n h i = sift_down lt n (h[i := h ! j, j := h ! i]) j"
      unfolding sd by simp
    then have "j \<le> snd (sift_down lt n h i)"
      using sift_down_snd [of j lt n "h[i := h ! j, j := h ! i]"] by simp
    with ij un show False by simp
  qed
  have "\<forall>c. 0 < c \<and> c < n \<and> parent c = i \<longrightarrow> \<not> lt (h ! c) (h ! i)"
    using min_child_stop [OF swo j_def stop] by blast
  then show ?thesis unfolding sd using stop by simp
qed

lemma fix_at_heap:
  assumes swo: "strict_weak_order lt"
    and hp: "heap_from lt 0 n h"
    and i: "i < n" and nl: "n \<le> length h"
  shows "heap_from lt 0 n (fix_at lt n (h[i := v]) i)"
proof -
  define g where "g = h[i := v]"
  have gl: "n \<le> length g" using nl by (simp add: g_def)
  have gi: "g ! i = v" using i nl by (simp add: g_def)
  have go: "g ! c = h ! c" if "c \<noteq> i" for c using that by (simp add: g_def)
  have ok: "\<not> lt (h ! c) (h ! parent c)" if "0 < c" "c < n" for c
    using hp that unfolding heap_from_def by simp
  have gp: "\<not> lt (h ! c) (h ! parent i)" if "0 < c" "c < n" "parent c = i" "0 < i" for c
    using ok [of c] ok [of i] that i swo_neg_trans [OF swo] by metis
  have pi: "parent i \<noteq> i" if "0 < i" using parent_lt [OF that] by simp
  show ?thesis
  proof (cases "i < snd (sift_down lt n g i)")
    case True
    from sift_down_moved [OF True] obtain c0
      where c0: "0 < c0" "c0 < n" "parent c0 = i" "lt (g ! c0) (g ! i)" by blast
    have c0i: "c0 \<noteq> i" using c0 parent_lt [of c0] by auto
    have lv: "lt (h ! c0) v" using c0(4) gi go [OF c0i] by simp
    have "down_inv lt 0 n g i"
      unfolding down_inv_def
    proof (intro conjI allI impI)
      fix c assume cc: "0 < c \<and> c < n \<and> 0 \<le> parent c \<and> parent c \<noteq> i"
      show "\<not> lt (g ! c) (g ! parent c)"
      proof (cases "c = i")
        case True
        then have "0 < i" using cc by simp
        have "\<not> lt (h ! c0) (h ! parent i)" using gp [OF c0(1,2,3) \<open>0 < i\<close>] .
        then have "\<not> lt v (h ! parent i)" using swo_trans [OF swo lv] by blast
        then show ?thesis using True gi go [OF pi [OF \<open>0 < i\<close>]] by simp
      next
        case False
        then show ?thesis using ok [of c] cc go by simp
      qed
    next
      fix c assume cc: "0 < c \<and> c < n \<and> parent c = i \<and> 0 < i \<and> 0 \<le> parent i"
      then have "c \<noteq> i" using parent_lt [of c] by auto
      then show "\<not> lt (g ! c) (g ! parent i)" using gp [of c] cc go pi by simp
    qed
    from sift_down_heap [OF swo this _ gl] True show ?thesis
      by (simp add: fix_at_def g_def [symmetric])
  next
    case False
    from sift_down_unmoved [OF swo False]
    have same: "fst (sift_down lt n g i) = g"
      and ch: "\<And>c. 0 < c \<Longrightarrow> c < n \<Longrightarrow> parent c = i \<Longrightarrow> \<not> lt (g ! c) (g ! i)" by auto
    have "up_inv lt n g i"
      unfolding up_inv_def
    proof (intro conjI allI impI)
      fix c assume cc: "0 < c \<and> c < n \<and> c \<noteq> i"
      show "\<not> lt (g ! c) (g ! parent c)"
      proof (cases "parent c = i")
        case True
        then show ?thesis using ch [of c] cc by simp
      next
        case False
        then show ?thesis using ok [of c] cc go by simp
      qed
    next
      fix c assume cc: "0 < c \<and> c < n \<and> parent c = i \<and> 0 < i"
      then have "c \<noteq> i" using parent_lt [of c] by auto
      then show "\<not> lt (g ! c) (g ! parent i)" using gp [of c] cc go pi by simp
    qed
    from sift_up_heap [OF swo this gl i] False same show ?thesis
      by (simp add: fix_at_def g_def [symmetric])
  qed
qed

lemma fix_at_length: "length (fix_at lt n h i) = length h"
  by (simp add: fix_at_def sift_up_length sift_down_length)

lemma fix_at_mset: "n \<le> length h \<Longrightarrow> i < n \<Longrightarrow> mset (fix_at lt n h i) = mset h"
  by (simp add: fix_at_def sift_up_mset sift_down_mset sift_down_length)

lemma fix_at_drop: "i < n \<Longrightarrow> drop n (fix_at lt n h i) = drop n h"
  by (simp add: fix_at_def sift_up_drop sift_down_drop)

lemma mset_take_of_drop:
  assumes "mset a = mset b" "drop n a = drop n b"
  shows "mset (take n a) = mset (take n b)"
proof -
  have "mset (take n a) + mset (drop n a) = mset (take n b) + mset (drop n b)"
    using assms(1) by (simp only: mset_append [symmetric] append_take_drop_id)
  then show ?thesis using assms(2) by simp
qed

lemma mset_replace_last:
  assumes "i < length h"
  shows "add_mset (h ! i) (mset (take (length h - 1) (h[i := h ! (length h - 1)]))) = mset h"
proof -
  define n where "n = length h - 1"
  have ne: "h \<noteq> []" using assms by auto
  have nl: "n < length h" "Suc n = length h" using ne by (simp_all add: n_def)
  have "take (Suc n) h = take n h @ [h ! n]" using nl(1) by (rule take_Suc_conv_app_nth)
  then have hn: "h = take n h @ [h ! n]" using nl(2) by simp
  have "mset h = mset (take n h @ [h ! n])" using hn by simp
  then have mh: "mset h = add_mset (h ! n) (mset (take n h))" by simp
  have "add_mset (h ! i) (mset (take n (h[i := h ! n]))) = mset h"
  proof (cases "i = n")
    case True
    then show ?thesis using mh by simp
  next
    case False
    then have il: "i < n" using assms by (simp add: n_def)
    then have "take n (h[i := h ! n]) = (take n h)[i := h ! n]" by (simp add: take_update_swap)
    moreover have it: "i < length (take n h)" using il assms by (simp add: n_def)
    ultimately have "mset (take n (h[i := h ! n])) = add_mset (h ! n) (mset (take n h) - {#take n h ! i#})"
      by (simp add: mset_update)
    moreover have "take n h ! i = h ! i" using il by simp
    moreover have "take n h ! i \<in># mset (take n h)" using it by (rule nth_mem_mset)
    ultimately show ?thesis using mh by simp
  qed
  then show ?thesis by (simp only: n_def)
qed

lemma PushFunc_ok:
  assumes swo: "strict_weak_order lt" and f: "fits (Suc (length h))" and hp: "heap_inv lt h"
  shows "\<exists>h'. PushFunc h x lt = Inr h' \<and> heap_inv lt h' \<and> mset h' = add_mset x (mset h)
          \<and> length h' = Suc (length h)"
proof -
  define n where "n = length h"
  have hf: "heap_from lt 0 n h" using hp by (simp add: heap_inv_iff n_def)
  have "up_inv lt (Suc n) (h @ [x]) n"
    unfolding up_inv_def
  proof (intro conjI allI impI)
    fix c assume cc: "0 < c \<and> c < Suc n \<and> c \<noteq> n"
    then have "c < n" "parent c < n" using parent_lt [of c] by simp_all
    then show "\<not> lt ((h @ [x]) ! c) ((h @ [x]) ! parent c)"
      using hf cc unfolding heap_from_def by (simp add: nth_append n_def)
  next
    fix c assume "0 < c \<and> c < Suc n \<and> parent c = n \<and> 0 < n"
    then show "\<not> lt ((h @ [x]) ! c) ((h @ [x]) ! parent n)" using parent_lt [of c] by simp
  qed
  then have "heap_from lt 0 (Suc n) (sift_up lt (h @ [x]) n)"
    by (intro sift_up_heap [OF swo]) (simp_all add: n_def)
  then have "heap_inv lt (sift_up lt (h @ [x]) n)"
    by (simp add: heap_inv_iff sift_up_length n_def)
  moreover have "mset (sift_up lt (h @ [x]) n) = add_mset x (mset h)"
    by (simp add: sift_up_mset n_def)
  ultimately show ?thesis
    unfolding PushFunc_refines [OF f] by (simp add: n_def sift_up_length)
qed

lemma PopFunc_ok:
  assumes swo: "strict_weak_order lt" and f: "fits (length h)" and hp: "heap_inv lt h" and ne: "h \<noteq> []"
  shows "\<exists>h'. PopFunc h lt = Inr (h ! 0, h') \<and> heap_inv lt h' \<and> add_mset (h ! 0) (mset h') = mset h
          \<and> Suc (length h') = length h \<and> (\<forall>y \<in> set h. \<not> lt y (h ! 0))"
proof -
  define n where "n = length h - 1"
  define g where "g = take n (h[0 := h ! n])"
  have nl: "Suc n = length h" using ne by (simp add: n_def)
  have hf: "heap_from lt 0 (length h) h" using hp by (simp add: heap_inv_iff)
  have gl: "length g = n" using nl by (simp add: g_def)
  have gc: "g ! c = h ! c" if "0 < c" "c < n" for c using that by (simp add: g_def)
  have "down_inv lt 0 n g 0"
    unfolding down_inv_def
  proof (intro conjI allI impI)
    fix c assume cc: "0 < c \<and> c < n \<and> 0 \<le> parent c \<and> parent c \<noteq> 0"
    then have "parent c < n" "0 < parent c" using parent_lt [of c] by simp_all
    then show "\<not> lt (g ! c) (g ! parent c)"
      using hf cc nl gc unfolding heap_from_def by simp
  qed simp
  then have "heap_from lt 0 n (fst (sift_down lt n g 0))"
    by (intro sift_down_heap [OF swo]) (simp_all add: gl)
  then have 1: "heap_inv lt (fst (sift_down lt n g 0))"
    by (simp add: heap_inv_iff sift_down_length gl)
  have "mset (fst (sift_down lt n g 0)) = mset g" by (simp add: sift_down_mset gl)
  moreover have "add_mset (h ! 0) (mset g) = mset h"
    unfolding g_def n_def using ne by (intro mset_replace_last) simp
  ultimately have 2: "add_mset (h ! 0) (mset (fst (sift_down lt n g 0))) = mset h" by simp
  have 3: "\<forall>y \<in> set h. \<not> lt y (h ! 0)"
    using root_min [OF swo hf] by (auto simp: in_set_conv_nth)
  show ?thesis
    unfolding PopFunc_refines [OF f ne] n_def [symmetric] g_def [symmetric]
    using 1 2 3 nl by (simp add: sift_down_length gl)
qed

lemma FixFunc_ok:
  assumes swo: "strict_weak_order lt" and f: "fits (length h)" and hp: "heap_inv lt h"
    and i: "in_range h i"
  shows "\<exists>h'. FixFunc (h[nat (sint i) := v]) i lt = Inr h' \<and> heap_inv lt h'
          \<and> mset h' = mset (h[nat (sint i) := v]) \<and> length h' = length h"
proof -
  define k where "k = nat (sint i)"
  define g where "g = h[k := v]"
  have ik: "i = of_nat k" "k < length h" using in_range_conv [OF f i] by (simp_all add: k_def)
  have gl: "length g = length h" by (simp add: g_def)
  have r: "FixFunc g i lt = Inr (fix_at lt (length h) g k)"
    using FixFunc_refines [of g k lt] f ik gl by simp
  have "heap_from lt 0 (length h) (fix_at lt (length h) g k)"
    unfolding g_def using hp ik by (intro fix_at_heap [OF swo]) (simp_all add: heap_inv_iff)
  then have "heap_inv lt (fix_at lt (length h) g k)"
    by (simp add: heap_inv_iff fix_at_length gl)
  moreover have "mset (fix_at lt (length h) g k) = mset g"
    using ik by (simp add: fix_at_mset gl)
  ultimately show ?thesis
    unfolding k_def [symmetric] g_def [symmetric] r by (simp add: fix_at_length gl)
qed

lemma heap_from_less: "heap_from lt 0 n h \<Longrightarrow> m \<le> n \<Longrightarrow> heap_from lt 0 m h"
  unfolding heap_from_def by simp

lemma RemoveFunc_ok_nat:
  assumes swo: "strict_weak_order lt" and f: "fits (length h)" and hp: "heap_inv lt h"
    and k: "k < length h"
  shows "\<exists>h'. RemoveFunc h (of_nat k) lt = Inr (h ! k, h') \<and> heap_inv lt h'
          \<and> add_mset (h ! k) (mset h') = mset h \<and> Suc (length h') = length h"
proof -
  define n where "n = length h - 1"
  define g where "g = h[k := h ! n]"
  define r where "r = (if n \<noteq> k then fix_at lt n g k else h)"
  have nl: "Suc n = length h" using k by (simp add: n_def)
  have ref: "RemoveFunc h (of_nat k) lt = Inr (h ! k, take n r)"
    apply (unfold r_def)
    apply (unfold g_def)
    apply (unfold n_def)
    apply (rule RemoveFunc_refines [OF f k])
    done
  have hf: "heap_from lt 0 n h"
  proof (rule heap_from_less)
    show "heap_from lt 0 (length h) h" using hp by (simp only: heap_inv_iff)
    show "n \<le> length h" using nl by simp
  qed
  have rl: "length r = length h" by (simp add: r_def g_def fix_at_length)
  have rh: "heap_from lt 0 n r"
  proof (cases "n = k")
    case True
    then show ?thesis using hf by (simp add: r_def)
  next
    case False
    then have "k < n" using k nl by simp
    then show ?thesis
      unfolding r_def g_def using False hf nl by (simp add: fix_at_heap [OF swo])
  qed
  then have 1: "heap_inv lt (take n r)" using rl nl by (simp add: heap_from_take)
  have "mset (take n r) = mset (take n g)"
  proof (cases "n = k")
    case True
    then show ?thesis by (simp add: r_def g_def)
  next
    case False
    then have kn: "k < n" using k nl by simp
    have "mset r = mset g" using kn nl False by (simp add: r_def fix_at_mset g_def)
    moreover have "drop n r = drop n g" using kn False by (simp add: r_def fix_at_drop)
    ultimately show ?thesis by (rule mset_take_of_drop)
  qed
  moreover have "add_mset (h ! k) (mset (take n g)) = mset h"
    unfolding g_def n_def using k by (rule mset_replace_last)
  ultimately have 2: "add_mset (h ! k) (mset (take n r)) = mset h" by simp
  show ?thesis
    unfolding ref using 1 2 nl rl by simp
qed

lemma RemoveFunc_ok:
  assumes swo: "strict_weak_order lt" and f: "fits (length h)" and hp: "heap_inv lt h"
    and i: "in_range h i"
  shows "\<exists>h'. RemoveFunc h i lt = Inr (at h i, h') \<and> heap_inv lt h'
          \<and> add_mset (at h i) (mset h') = mset h \<and> Suc (length h') = length h"
proof -
  have k: "nat (sint i) < length h" and e: "of_nat (nat (sint i)) = i"
    using in_range_conv [OF f i] by simp_all
  show ?thesis
    using RemoveFunc_ok_nat [OF swo f hp k] unfolding at_def e .
qed

lemma InitFunc_ok:
  assumes swo: "strict_weak_order lt" and f: "fits (length h)"
  shows "\<exists>h'. InitFunc h lt = Inr h' \<and> heap_inv lt h' \<and> mset h' = mset h \<and> length h' = length h"
proof -
  have "heap_from lt 0 (length h) (heapify lt (length h) h (length h div 2))"
    using heap_from_top by (intro heapify_heap [OF swo]) simp_all
  then show ?thesis
    unfolding InitFunc_refines [OF f]
    by (simp add: heap_inv_iff heapify_length heapify_mset)
qed

lemma InitFunc_noop:
  assumes f: "fits (length h)" and hp: "heap_inv lt h"
  shows "InitFunc h lt = Inr h"
  unfolding InitFunc_refines [OF f] using hp by (simp add: heap_inv_iff heapify_noop)

lemma pop_n_ok:
  assumes swo: "strict_weak_order lt"
  shows "fits (length h) \<Longrightarrow> heap_inv lt h \<Longrightarrow> k \<le> length h \<Longrightarrow>
    \<exists>out h'. pop_n k h lt = Inr (out, h') \<and> length out = k \<and> non_decreasing lt out
      \<and> mset out + mset h' = mset h \<and> heap_inv lt h' \<and> k + length h' = length h"
proof (induction k arbitrary: h)
  case 0
  then show ?case by (simp add: non_decreasing_def)
next
  case (Suc k)
  then have ne: "h \<noteq> []" by auto
  from PopFunc_ok [OF swo Suc.prems(1,2) ne] obtain h1 where
    p: "PopFunc h lt = Inr (h ! 0, h1)" and h1: "heap_inv lt h1"
    and m1: "add_mset (h ! 0) (mset h1) = mset h" and l1: "Suc (length h1) = length h"
    and mn: "\<forall>y \<in> set h. \<not> lt y (h ! 0)" by blast
  have f1: "fits (length h1)" using Suc.prems(1) l1 by (auto intro: fits_mono)
  have k1: "k \<le> length h1" using Suc.prems(3) l1 by simp
  from Suc.IH [OF f1 h1 k1] obtain out h' where
    q: "pop_n k h1 lt = Inr (out, h')" and lo: "length out = k" and so: "non_decreasing lt out"
    and mo: "mset out + mset h' = mset h1" and hh: "heap_inv lt h'"
    and ll: "k + length h' = length h1" by blast
  have "set out \<subseteq> set h"
  proof
    fix y assume "y \<in> set out"
    then have "y \<in># mset out + mset h'" by simp
    then have "y \<in># mset h1" by (simp only: mo)
    then have "y \<in># add_mset (h ! 0) (mset h1)" by simp
    then show "y \<in> set h" by (simp only: m1 set_mset_mset)
  qed
  then have "\<forall>y \<in> set out. \<not> lt y (h ! 0)" using mn by blast
  then have s: "non_decreasing lt (h ! 0 # out)" using so by (simp add: non_decreasing_def)
  have m: "mset (h ! 0 # out) + mset h' = mset h"
    using mo m1 by (metis mset.simps(2) union_mset_add_mset_left)
  show ?case
    using p q lo s m hh ll l1 by simp
qed

lemma sorted_unique:
  assumes to: "total_order lt"
  shows "non_decreasing lt xs \<Longrightarrow> non_decreasing lt ys \<Longrightarrow> mset xs = mset ys \<Longrightarrow> xs = ys"
proof (induction xs arbitrary: ys)
  case Nil
  then show ?case by simp
next
  case (Cons x xs)
  then obtain y ys' where ys: "ys = y # ys'" by (cases ys) auto
  have tot: "\<And>a b. \<not> lt a b \<Longrightarrow> \<not> lt b a \<Longrightarrow> a = b" and irr: "\<And>a. \<not> lt a a"
    using to unfolding total_order_def strict_weak_order_def by blast+
  have "x \<in> set (y # ys')" using Cons.prems(3) ys by (metis list.set_intros(1) mset_eq_setD)
  then have a: "\<not> lt x y" using Cons.prems(2) irr unfolding ys non_decreasing_def by auto
  have "y \<in> set (x # xs)" using Cons.prems(3) ys by (metis list.set_intros(1) mset_eq_setD)
  then have b: "\<not> lt y x" using Cons.prems(1) irr unfolding non_decreasing_def by auto
  from a b tot have xy: "x = y" by blast
  then have "mset xs = mset ys'" using Cons.prems(3) ys by simp
  moreover have "non_decreasing lt xs" "non_decreasing lt ys'"
    using Cons.prems(1,2) unfolding ys non_decreasing_def by simp_all
  ultimately have "xs = ys'" using Cons.IH by blast
  then show ?case using xy ys by simp
qed

lemma push_all_ok:
  assumes swo: "strict_weak_order lt"
  shows "fits (length h + length xs) \<Longrightarrow> heap_inv lt h \<Longrightarrow>
    \<exists>h'. push_all h xs lt = Inr h' \<and> heap_inv lt h' \<and> mset h' = mset h + mset xs
      \<and> length h' = length h + length xs"
proof (induction xs arbitrary: h)
  case Nil
  then show ?case by simp
next
  case (Cons x xs)
  have f: "fits (Suc (length h))" using Cons.prems(1) by (auto intro: fits_mono)
  from PushFunc_ok [OF swo f Cons.prems(2)] obtain h1 where
    p: "PushFunc h x lt = Inr h1" and h1: "heap_inv lt h1"
    and m1: "mset h1 = add_mset x (mset h)" and l1: "length h1 = Suc (length h)" by blast
  have f1: "fits (length h1 + length xs)" using Cons.prems(1) l1 by simp
  from Cons.IH [OF f1 h1] obtain h' where
    "push_all h1 xs lt = Inr h'" "heap_inv lt h'" "mset h' = mset h1 + mset xs"
    "length h' = length h1 + length xs" by blast
  then show ?case using p m1 l1 by simp
qed

lemma heap_inv_Nil: "heap_inv lt []"
  by (simp add: heap_inv_def)

lemma pop_all_ok:
  assumes swo: "strict_weak_order lt" and f: "fits (length h)" and hp: "heap_inv lt h"
  shows "\<exists>out. pop_n (length h) h lt = Inr (out, []) \<and> length out = length h
      \<and> non_decreasing lt out \<and> mset out = mset h"
proof -
  from pop_n_ok [OF swo f hp order_refl] obtain out h' where
    a: "pop_n (length h) h lt = Inr (out, h')" "length out = length h" "non_decreasing lt out"
      "mset out + mset h' = mset h" "length h + length h' = length h" by blast
  then have "h' = []" by simp
  with a show ?thesis by simp
qed

section \<open>Auxiliary facts for the claims\<close>

lemma swo_nat_less: "strict_weak_order ((<) :: nat \<Rightarrow> nat \<Rightarrow> bool)"
  unfolding strict_weak_order_def by auto

lemma swo_by_key: "strict_weak_order by_key"
  unfolding strict_weak_order_def by_key_def by auto

lemma index_out_of_range: "\<not> in_range h i \<Longrightarrow> index h i = Inl (IndexOutOfRange, h)"
  by (simp add: index_def)

lemma RemoveFunc_out_of_range: "\<not> in_range h i \<Longrightarrow> RemoveFunc h i lt = Inl (IndexOutOfRange, h)"
  by (simp add: RemoveFunc_def index_out_of_range)

lemma RemoveFunc_in_range:
  assumes "fits (length h)" "in_range h i"
  shows "\<exists>x h'. RemoveFunc h i lt = Inr (x, h')"
proof -
  have k: "nat (sint i) < length h" and e: "of_nat (nat (sint i)) = i"
    using in_range_conv [OF assms] by simp_all
  from RemoveFunc_refines [OF assms(1) k, of lt] show ?thesis
    unfolding e by blast
qed

lemma sift_up_zero: "sift_up lt h 0 = h"
  by (subst sift_up.simps) simp

lemma sift_down_empty: "sift_down lt 0 h i = (h, i)"
  by (subst sift_down.simps) simp

lemma sint_len: "fits (length h) \<Longrightarrow> sint (len h) = int (length h)"
  unfolding len_def by (rule sint_nat)

lemma up_out_of_range:
  assumes "\<not> in_range h i" and "quo (i - 1) 2 \<noteq> i"
  shows "up h i lt = Inl (IndexOutOfRange, h)"
  by (subst up.simps) (simp add: Let_def index_out_of_range assms)

lemma sdiv2_fixed: "(k::int) sdiv 2 = k + 1 \<Longrightarrow> k = - 1 \<or> k = - 2"
  unfolding signed_divide_int_def by (auto simp: sgn_if abs_if split: if_splits)

lemma parent_ne:
  assumes "sint (i::go_int) \<noteq> 0" and "sint i \<noteq> - 1"
  shows "quo (i - 1) 2 \<noteq> i"
proof
  assume "quo (i - 1) 2 = i"
  then have "sint (quo (i - 1) 2) = sint i" by simp
  then have e: "wrap (sint i - 1) sdiv 2 = sint i" by (simp only: sint_quo2 sint_pred)
  show False
  proof (cases "sint i = - (2 ^ 63)")
    case True
    then have "wrap (sint i - 1) = 2 ^ 63 - 1"
      using wrap_low [of "sint i - 1"] by simp
    with e True show False by (simp add: signed_divide_int_def)
  next
    case False
    then have "wrap (sint i - 1) = sint i - 1"
      using sint_bounds [of i] by (intro wrap_id) simp_all
    with e have "(sint i - 1) sdiv 2 = (sint i - 1) + 1" by simp
    from sdiv2_fixed [OF this] assms show False by auto
  qed
qed

lemma down_loop_beyond:
  assumes f: "fits (length h)" and p: "0 \<le> sint i" and b: "int (length h) \<le> sint i"
  shows "down_loop lt (len h) h i = Inr (h, i)"
proof -
  have "\<not> slt (2 * i + 1) (len h) \<or> slt (2 * i + 1) 0"
  proof (cases "2 * sint i + 1 < 2 ^ 63")
    case True
    then have "sint (2 * i + 1) = 2 * sint i + 1"
      using p by (simp add: sint_child wrap_id)
    then show ?thesis using b p by (simp add: slt_def sint_len [OF f])
  next
    case False
    then have "sint (2 * i + 1) = 2 * sint i + 1 - 2 ^ 64"
      using sint_bounds [of i] by (simp add: sint_child wrap_high)
    then show ?thesis using sint_bounds [of i] by (simp add: slt_def)
  qed
  then show ?thesis by (subst down_loop.simps) (simp only: Let_def if_True)
qed

lemma down_loop_negative:
  assumes f: "fits (length h)" and n: "sint i < 0"
  shows "down_loop lt (len h) h i = Inr (h, i) \<or> down_loop lt (len h) h i = Inl (IndexOutOfRange, h)"
proof (cases "\<not> slt (2 * i + 1) (len h) \<or> slt (2 * i + 1) 0")
  case True
  then have "down_loop lt (len h) h i = Inr (h, i)"
    by (subst down_loop.simps) (simp only: Let_def if_True)
  then show ?thesis by simp
next
  case False
  define j1 :: go_int where "j1 = 2 * i + 1"
  define j2 :: go_int where "j2 = j1 + 1"
  have nb: "(\<not> slt j1 (len h) \<or> slt j1 0) = False" using False by (simp add: j1_def)
  have r1: "in_range h j1"
    using False by (simp add: in_range_def slt_def sint_len [OF f] j1_def)
  have r2: "in_range h j2" if "slt j2 (len h)"
  proof -
    have "sint j1 + 1 < 2 ^ 63" using r1 f unfolding in_range_def fits_def by simp
    then have "sint j2 = sint j1 + 1"
      using r1 unfolding j2_def in_range_def by (simp add: sint_succ wrap_id)
    then show ?thesis using that r1 by (simp add: in_range_def slt_def sint_len [OF f])
  qed
  have oi: "index h i = Inl (IndexOutOfRange, h)"
    using n by (simp add: index_def in_range_def)
  have i1: "index h j1 = Inr (at h j1)" using r1 by (simp add: index_def)
  obtain j where c: "(if slt j2 (len h)
        then (case index h j2 of Inl e \<Rightarrow> Inl e | Inr a \<Rightarrow>
               (case index h j1 of Inl e \<Rightarrow> Inl e | Inr b \<Rightarrow>
                  Inr (if lt a b then j2 else j1)))
        else Inr j1) = Inr j" and rj: "in_range h j"
    using r1 r2 i1 by (cases "slt j2 (len h)") (auto simp: index_def)
  have ij: "index h j = Inr (at h j)" using rj by (simp add: index_def)
  have "down_loop lt (len h) h i = Inl (IndexOutOfRange, h)"
    apply (subst down_loop.simps)
    apply (simp only: Let_def flip: j1_def)
    apply (simp only: nb c ij oi sum.case if_False flip: j2_def)
    done
  then show ?thesis by simp
qed

lemma FixFunc_out_of_range:
  assumes f: "fits (length h)" and o: "\<not> in_range h i"
    and e1: "i \<noteq> - 1" and e2: "\<not> (i = 0 \<and> h = [])"
  shows "FixFunc h i lt = Inl (IndexOutOfRange, h)"
proof -
  have s1: "sint i \<noteq> - 1" using e1 by (simp add: sint_eq_iff)
  have s0: "sint i \<noteq> 0"
  proof
    assume z: "sint i = 0"
    then have "i = 0" by (simp add: sint_eq_iff)
    moreover have "h = []" using o z by (simp add: in_range_def)
    ultimately show False using e2 by simp
  qed
  have u: "up h i lt = Inl (IndexOutOfRange, h)"
    using o parent_ne [OF s0 s1] by (rule up_out_of_range)
  have "down_loop lt (len h) h i = Inr (h, i) \<or> down_loop lt (len h) h i = Inl (IndexOutOfRange, h)"
  proof (cases "sint i < 0")
    case True
    with f show ?thesis by (rule down_loop_negative)
  next
    case False
    then have "0 \<le> sint i" "int (length h) \<le> sint i" using o by (simp_all add: in_range_def)
    from down_loop_beyond [OF f this] show ?thesis by simp
  qed
  then show ?thesis
  proof
    assume "down_loop lt (len h) h i = Inr (h, i)"
    then show ?thesis using u by (simp add: FixFunc_def down_def slt_def)
  next
    assume "down_loop lt (len h) h i = Inl (IndexOutOfRange, h)"
    then show ?thesis by (simp add: FixFunc_def down_def)
  qed
qed

section \<open>The claims\<close>

text \<open>
  C1. Every public operation preserves the heap invariant. For a strict weak ordering and a
  slice \<open>h\<close> that satisfies the invariant: \<^verbatim>\<open>PushFunc\<close> of any value, \<^verbatim>\<open>PopFunc\<close> on a non-empty
  \<open>h\<close>, \<^verbatim>\<open>RemoveFunc\<close> at an index in range, and \<^verbatim>\<open>FixFunc\<close> at an index in range after the
  element there was overwritten with any value \<open>v\<close> (with \<open>v\<close> the old value: \<^verbatim>\<open>FixFunc\<close> on \<open>h\<close>
  itself) all return normally with a slice that satisfies the invariant; and \<^verbatim>\<open>InitFunc\<close> on an
  arbitrary slice \<open>g\<close> returns one that satisfies it.
\<close>

theorem heap_invariant_preserved:
  assumes "strict_weak_order lt" and "fits (length h)" and "heap_inv lt h"
  shows "(fits (Suc (length h)) \<longrightarrow> (\<exists>h'. PushFunc h x lt = Inr h' \<and> heap_inv lt h'))
    \<and> (h \<noteq> [] \<longrightarrow> (\<exists>y h'. PopFunc h lt = Inr (y, h') \<and> heap_inv lt h'))
    \<and> (in_range h i \<longrightarrow> (\<exists>y h'. RemoveFunc h i lt = Inr (y, h') \<and> heap_inv lt h'))
    \<and> (in_range h i \<longrightarrow>
         (\<exists>h'. FixFunc (h[nat (sint i) := v]) i lt = Inr h' \<and> heap_inv lt h'))
    \<and> (fits (length g) \<longrightarrow> (\<exists>h'. InitFunc g lt = Inr h' \<and> heap_inv lt h'))"
proof (intro conjI impI)
  assume "fits (Suc (length h))"
  from PushFunc_ok [OF assms(1) this assms(3)]
  show "\<exists>h'. PushFunc h x lt = Inr h' \<and> heap_inv lt h'" by blast
next
  assume "h \<noteq> []"
  from PopFunc_ok [OF assms this]
  show "\<exists>y h'. PopFunc h lt = Inr (y, h') \<and> heap_inv lt h'" by blast
next
  assume "in_range h i"
  from RemoveFunc_ok [OF assms this]
  show "\<exists>y h'. RemoveFunc h i lt = Inr (y, h') \<and> heap_inv lt h'" by blast
next
  assume "in_range h i"
  from FixFunc_ok [OF assms this]
  show "\<exists>h'. FixFunc (h[nat (sint i) := v]) i lt = Inr h' \<and> heap_inv lt h'" by blast
next
  assume "fits (length g)"
  from InitFunc_ok [OF assms(1) this]
  show "\<exists>h'. InitFunc g lt = Inr h' \<and> heap_inv lt h'" by blast
qed

theorem heap_invariant_preserved_witness:
  "strict_weak_order ((<) :: nat \<Rightarrow> nat \<Rightarrow> bool)
   \<and> fits (length [1, 2, 3, 5, 9, 8 :: nat]) \<and> heap_inv (<) [1, 2, 3, 5, 9, 8 :: nat]
   \<and> fits (Suc (length [1, 2, 3, 5, 9, 8 :: nat])) \<and> in_range [1, 2, 3, 5, 9, 8 :: nat] 2
   \<and> fits (length [5, 2, 8, 1, 9, 3 :: nat])
   \<and> (\<exists>h'. PushFunc [1, 2, 3, 5, 9, 8 :: nat] 0 (<) = Inr h' \<and> heap_inv (<) h')
   \<and> (\<exists>y h'. PopFunc [1, 2, 3, 5, 9, 8 :: nat] (<) = Inr (y, h') \<and> heap_inv (<) h')
   \<and> (\<exists>y h'. RemoveFunc [1, 2, 3, 5, 9, 8 :: nat] 2 (<) = Inr (y, h') \<and> heap_inv (<) h')
   \<and> (\<exists>h'. FixFunc ([1, 2, 3, 5, 9, 8 :: nat][nat (sint (2 :: go_int)) := 7]) 2 (<) = Inr h'
          \<and> heap_inv (<) h')
   \<and> (\<exists>h'. InitFunc [5, 2, 8, 1, 9, 3 :: nat] (<) = Inr h' \<and> heap_inv (<) h')"
proof -
  have 1: "fits (length [1, 2, 3, 5, 9, 8 :: nat])" by (simp add: fits_def)
  have 2: "heap_inv (<) [1, 2, 3, 5, 9, 8 :: nat]"
    by (simp add: heap_inv_def atLeastLessThan_upt)
  have 3: "fits (Suc (length [1, 2, 3, 5, 9, 8 :: nat]))" by (simp add: fits_def)
  have 4: "in_range [1, 2, 3, 5, 9, 8 :: nat] 2" by (simp add: in_range_def)
  have 5: "fits (length [5, 2, 8, 1, 9, 3 :: nat])" by (simp add: fits_def)
  have 6: "[1, 2, 3, 5, 9, 8 :: nat] \<noteq> []" by simp
  from heap_invariant_preserved [OF swo_nat_less 1 2,
      of 0 2 7 "[5, 2, 8, 1, 9, 3]"] 3 4 5 6
  show ?thesis using swo_nat_less 1 2 by blast
qed

text \<open>
  C2. Sorted extraction: for a strict weak ordering and a slice of \<open>N\<close> elements, \<^verbatim>\<open>InitFunc\<close>
  followed by \<open>N\<close> calls of \<^verbatim>\<open>PopFunc\<close> returns normally, empties the heap, and yields \<open>N\<close> values
  that are non-decreasing and are, as a multiset, the original elements.
\<close>

theorem sorted_extraction:
  assumes "strict_weak_order lt" and "fits (length h)"
  shows "\<exists>h1 out. InitFunc h lt = Inr h1 \<and> pop_n (length h) h1 lt = Inr (out, [])
    \<and> length out = length h \<and> non_decreasing lt out \<and> mset out = mset h"
proof -
  from InitFunc_ok [OF assms] obtain h1 where
    a: "InitFunc h lt = Inr h1" "heap_inv lt h1" "mset h1 = mset h" "length h1 = length h"
    by blast
  have f1: "fits (length h1)" using assms(2) a(4) by simp
  from pop_all_ok [OF assms(1) f1 a(2)] a show ?thesis by auto
qed

theorem sorted_extraction_witness:
  "strict_weak_order ((<) :: nat \<Rightarrow> nat \<Rightarrow> bool) \<and> fits (length [5, 2, 8, 1, 9, 3 :: nat])
   \<and> (\<exists>h1 out. InitFunc [5, 2, 8, 1, 9, 3 :: nat] (<) = Inr h1
         \<and> pop_n (length [5, 2, 8, 1, 9, 3 :: nat]) h1 (<) = Inr (out, [])
         \<and> length out = length [5, 2, 8, 1, 9, 3 :: nat] \<and> non_decreasing (<) out
         \<and> mset out = mset [5, 2, 8, 1, 9, 3 :: nat])"
proof -
  have 1: "fits (length [5, 2, 8, 1, 9, 3 :: nat])" by (simp add: fits_def)
  from sorted_extraction [OF swo_nat_less 1] show ?thesis using swo_nat_less 1 by blast
qed

text \<open>
  C3. On a non-empty slice that satisfies the invariant, \<^verbatim>\<open>PopFunc\<close> returns the element that
  was at index 0, and no element of the slice is less than it.
\<close>

theorem pop_min_returns_minimum:
  assumes "strict_weak_order lt" and "fits (length h)" and "heap_inv lt h" and "h \<noteq> []"
  shows "\<exists>h'. PopFunc h lt = Inr (h ! 0, h') \<and> (\<forall>y \<in> set h. \<not> lt y (h ! 0))"
  using PopFunc_ok [OF assms] by blast

theorem pop_min_returns_minimum_witness:
  "strict_weak_order ((<) :: nat \<Rightarrow> nat \<Rightarrow> bool) \<and> fits (length [1, 2, 3, 5, 9, 8 :: nat])
   \<and> heap_inv (<) [1, 2, 3, 5, 9, 8 :: nat] \<and> [1, 2, 3, 5, 9, 8 :: nat] \<noteq> []
   \<and> (\<exists>h'. PopFunc [1, 2, 3, 5, 9, 8 :: nat] (<) = Inr ([1, 2, 3, 5, 9, 8] ! 0, h')
         \<and> (\<forall>y. y \<in> set [1, 2, 3, 5, 9, 8 :: nat] \<longrightarrow> \<not> y < [1, 2, 3, 5, 9, 8] ! 0))"
proof -
  have 1: "fits (length [1, 2, 3, 5, 9, 8 :: nat])" by (simp add: fits_def)
  have 2: "heap_inv (<) [1, 2, 3, 5, 9, 8 :: nat]"
    by (simp add: heap_inv_def atLeastLessThan_upt)
  have 3: "[1, 2, 3, 5, 9, 8 :: nat] \<noteq> []" by simp
  from pop_min_returns_minimum [OF swo_nat_less 1 2 3]
  show ?thesis using swo_nat_less 1 2 3 by blast
qed

text \<open>
  C4 as stated fails for \<^verbatim>\<open>FixFunc\<close>: with index \<open>-1\<close>, and with index 0 on an empty slice, it
  returns normally. In \<^verbatim>\<open>down\<close> the test \<^verbatim>\<open>j1 >= n || j1 < 0\<close> ends the loop before any element is
  read, and in \<^verbatim>\<open>up\<close> the parent \<^verbatim>\<open>(j - 1) / 2\<close> of these two indices is the index itself, so the
  loop ends on \<^verbatim>\<open>i == j\<close>.
\<close>

theorem fix_at_out_of_range_counterexample:
  "\<not> in_range ([] :: nat list) 0 \<and> FixFunc ([] :: nat list) 0 (<) = Inr []
   \<and> \<not> in_range [1, 2, 3 :: nat] (- 1) \<and> FixFunc [1, 2, 3 :: nat] (- 1) (<) = Inr [1, 2, 3]"
proof -
  have 1: "\<not> in_range ([] :: nat list) 0" by (simp add: in_range_def)
  have 2: "FixFunc ([] :: nat list) 0 (<) = Inr []" by code_simp
  have 3: "\<not> in_range [1, 2, 3 :: nat] (- 1)" by (simp add: in_range_def)
  have 4: "FixFunc [1, 2, 3 :: nat] (- 1) (<) = Inr [1, 2, 3]" by code_simp
  show ?thesis using 1 2 3 4 by blast
qed

text \<open>
  C4, amended. For every slice and every index outside \<open>[0, len)\<close>, \<^verbatim>\<open>RemoveFunc\<close> panics with an
  index-out-of-range error; \<^verbatim>\<open>FixFunc\<close> does so for every such index other than \<open>-1\<close> and other
  than 0 on an empty slice. In both cases the slice is as it was passed in.
\<close>

theorem out_of_range_index_panics:
  assumes "fits (length h)" and "\<not> in_range h i"
  shows "RemoveFunc h i lt = Inl (IndexOutOfRange, h)
    \<and> (i \<noteq> - 1 \<and> \<not> (i = 0 \<and> h = []) \<longrightarrow> FixFunc h i lt = Inl (IndexOutOfRange, h))"
  using RemoveFunc_out_of_range [OF assms(2)] FixFunc_out_of_range [OF assms] by blast

theorem out_of_range_index_panics_witness:
  "fits (length [1, 2, 3 :: nat]) \<and> \<not> in_range [1, 2, 3 :: nat] 3
   \<and> \<not> in_range [1, 2, 3 :: nat] (- 2) \<and> \<not> in_range ([] :: nat list) 0
   \<and> RemoveFunc [1, 2, 3 :: nat] 3 (<) = Inl (IndexOutOfRange, [1, 2, 3])
   \<and> FixFunc [1, 2, 3 :: nat] 3 (<) = Inl (IndexOutOfRange, [1, 2, 3])
   \<and> RemoveFunc [1, 2, 3 :: nat] (- 2) (<) = Inl (IndexOutOfRange, [1, 2, 3])
   \<and> FixFunc [1, 2, 3 :: nat] (- 2) (<) = Inl (IndexOutOfRange, [1, 2, 3])
   \<and> RemoveFunc ([] :: nat list) 0 (<) = Inl (IndexOutOfRange, [])"
proof -
  have 1: "fits (length [1, 2, 3 :: nat])" by (simp add: fits_def)
  have 2: "\<not> in_range [1, 2, 3 :: nat] 3" by (simp add: in_range_def)
  have 3: "\<not> in_range [1, 2, 3 :: nat] (- 2)" by (simp add: in_range_def)
  have 4: "fits (length ([] :: nat list))" by (simp add: fits_def)
  have 5: "\<not> in_range ([] :: nat list) 0" by (simp add: in_range_def)
  have 6: "(3 :: go_int) \<noteq> - 1" "(- 2 :: go_int) \<noteq> - 1" by simp_all
  from out_of_range_index_panics [OF 1 2, of "(<)"]
    out_of_range_index_panics [OF 1 3, of "(<)"]
    out_of_range_index_panics [OF 4 5, of "(<)"] 6
  show ?thesis using 1 2 3 5 by auto
qed

text \<open>
  C5. \<^verbatim>\<open>PopFunc\<close> on an empty slice panics. Whenever \<^verbatim>\<open>PopFunc\<close> or \<^verbatim>\<open>RemoveFunc\<close> panics, the
  slice was empty, respectively the index out of range, and the slice at the moment of the
  panic is the slice that was passed in: nothing has been written and the length is unchanged.
\<close>

theorem failure_before_mutation:
  assumes "fits (length h)"
  shows "PopFunc [] lt = Inl (IndexOutOfRange, [])
    \<and> (\<forall>e s. PopFunc h lt = Inl (e, s) \<longrightarrow> h = [] \<and> s = h)
    \<and> (\<forall>e s. RemoveFunc h i lt = Inl (e, s) \<longrightarrow> \<not> in_range h i \<and> s = h)
    \<and> (\<not> in_range h i \<longrightarrow> RemoveFunc h i lt = Inl (IndexOutOfRange, h))"
proof (intro conjI allI impI)
  show "PopFunc [] lt = Inl (IndexOutOfRange, [])" by (rule PopFunc_empty)
next
  fix e s assume a: "PopFunc h lt = Inl (e, s)"
  show "h = []"
  proof (rule ccontr)
    assume "h \<noteq> []"
    from PopFunc_refines [OF assms this, of lt] a show False by simp
  qed
  with a show "s = h" by (simp add: PopFunc_empty)
next
  fix e s assume a: "RemoveFunc h i lt = Inl (e, s)"
  show "\<not> in_range h i"
  proof
    assume "in_range h i"
    from RemoveFunc_in_range [OF assms this, of lt] a show False by auto
  qed
  with a show "s = h" by (simp add: RemoveFunc_out_of_range)
next
  assume "\<not> in_range h i"
  then show "RemoveFunc h i lt = Inl (IndexOutOfRange, h)" by (rule RemoveFunc_out_of_range)
qed

theorem failure_before_mutation_witness:
  "fits (length [1, 2 :: nat]) \<and> \<not> in_range [1, 2 :: nat] 5
   \<and> PopFunc ([] :: nat list) (<) = Inl (IndexOutOfRange, [])
   \<and> RemoveFunc [1, 2 :: nat] 5 (<) = Inl (IndexOutOfRange, [1, 2])"
proof -
  have 1: "fits (length [1, 2 :: nat])" by (simp add: fits_def)
  have 2: "\<not> in_range [1, 2 :: nat] 5" by (simp add: in_range_def)
  from failure_before_mutation [OF 1, of "(<)" 5] 2
  show ?thesis using 1 by blast
qed

text \<open>
  C6. \<^verbatim>\<open>RemoveFunc\<close> at an index in range of a slice that satisfies the invariant returns the
  element that was at that index; the resulting slice is one shorter, holds the original
  elements less one occurrence of the returned one, and satisfies the invariant.
\<close>

theorem remove_at_correct:
  assumes "strict_weak_order lt" and "fits (length h)" and "heap_inv lt h" and "in_range h i"
  shows "\<exists>h'. RemoveFunc h i lt = Inr (at h i, h') \<and> length h' = length h - 1
    \<and> mset h' = mset h - {#at h i#} \<and> heap_inv lt h'"
proof -
  from RemoveFunc_ok [OF assms] obtain h' where
    a: "RemoveFunc h i lt = Inr (at h i, h')" "heap_inv lt h'"
      "add_mset (at h i) (mset h') = mset h" "Suc (length h') = length h" by blast
  have "mset h' = mset h - {#at h i#}" using a(3) by (metis add_mset_remove_trivial)
  moreover have "length h' = length h - 1" using a(4) by simp
  ultimately show ?thesis using a(1,2) by blast
qed

theorem remove_at_correct_witness:
  "strict_weak_order ((<) :: nat \<Rightarrow> nat \<Rightarrow> bool) \<and> fits (length [1, 2, 3, 5, 9, 8 :: nat])
   \<and> heap_inv (<) [1, 2, 3, 5, 9, 8 :: nat] \<and> in_range [1, 2, 3, 5, 9, 8 :: nat] 1
   \<and> (\<exists>h'. RemoveFunc [1, 2, 3, 5, 9, 8 :: nat] 1 (<) = Inr (at [1, 2, 3, 5, 9, 8] 1, h')
         \<and> length h' = length [1, 2, 3, 5, 9, 8 :: nat] - 1
         \<and> mset h' = mset [1, 2, 3, 5, 9, 8 :: nat] - {#at [1, 2, 3, 5, 9, 8] 1#}
         \<and> heap_inv (<) h')"
proof -
  have 1: "fits (length [1, 2, 3, 5, 9, 8 :: nat])" by (simp add: fits_def)
  have 2: "heap_inv (<) [1, 2, 3, 5, 9, 8 :: nat]"
    by (simp add: heap_inv_def atLeastLessThan_upt)
  have 3: "in_range [1, 2, 3, 5, 9, 8 :: nat] 1" by (simp add: in_range_def)
  from remove_at_correct [OF swo_nat_less 1 2 3]
  show ?thesis using swo_nat_less 1 2 3 by blast
qed

text \<open>
  C7 as stated fails: it asks that \<^verbatim>\<open>FixFunc\<close> after overwriting \<^verbatim>\<open>h[i]\<close>, and \<^verbatim>\<open>RemoveFunc\<close>
  followed by \<^verbatim>\<open>PushFunc\<close>, give the same sequence of values when everything is popped. With
  two elements of equal priority the two heaps hold them in different positions and pop them
  in different orders.
\<close>

theorem fix_vs_remove_push_counterexample:
  "strict_weak_order by_key \<and> heap_inv by_key [(1, 0), (1, 1)]
   \<and> in_range [(1 :: nat, 0 :: nat), (1, 1)] 0
   \<and> FixFunc ([(1, 0), (1, 1)][nat (sint (0 :: go_int)) := (1, 2)]) 0 by_key = Inr [(1, 2), (1, 1)]
   \<and> RemoveFunc [(1, 0), (1, 1)] 0 by_key = Inr ((1, 0), [(1, 1)])
   \<and> PushFunc [(1, 1)] (1, 2) by_key = Inr [(1, 1), (1, 2)]
   \<and> pop_n 2 [(1, 2), (1, 1)] by_key = Inr ([(1, 2), (1, 1)], [])
   \<and> pop_n 2 [(1, 1), (1, 2)] by_key = Inr ([(1, 1), (1, 2)], [])
   \<and> [(1, 2), (1, 1)] \<noteq> [(1, 1), (1 :: nat, 2 :: nat)]"
proof -
  have 1: "heap_inv by_key [(1, 0), (1, 1)]"
    by (simp add: heap_inv_def by_key_def atLeastLessThan_upt)
  have 2: "in_range [(1 :: nat, 0 :: nat), (1, 1)] 0" by (simp add: in_range_def)
  have 3: "FixFunc ([(1, 0), (1, 1)][nat (sint (0 :: go_int)) := (1, 2)]) 0 by_key
      = Inr [(1, 2), (1, 1)]" by code_simp
  have 4: "RemoveFunc [(1, 0), (1, 1)] 0 by_key = Inr ((1, 0), [(1, 1)])" by code_simp
  have 5: "PushFunc [(1, 1)] (1, 2) by_key = Inr [(1, 1), (1, 2)]" by code_simp
  have 6: "pop_n 2 [(1, 2), (1, 1)] by_key = Inr ([(1, 2), (1, 1)], [])" by code_simp
  have 7: "pop_n 2 [(1, 1), (1, 2)] by_key = Inr ([(1, 1), (1, 2)], [])" by code_simp
  have 8: "[(1, 2), (1, 1)] \<noteq> [(1, 1), (1 :: nat, 2 :: nat)]" by simp
  show ?thesis using swo_by_key 1 2 3 4 5 6 7 8 by blast
qed

text \<open>
  C7, amended. For a strict weak ordering, a slice \<open>h\<close> that satisfies the invariant, an index
  in range and a value \<open>v\<close>: overwriting \<^verbatim>\<open>h[i]\<close> with \<open>v\<close> and calling \<^verbatim>\<open>FixFunc\<close>, and calling
  \<^verbatim>\<open>RemoveFunc\<close> and then \<^verbatim>\<open>PushFunc\<close> of \<open>v\<close>, both return normally with heaps of the same
  length and the same multiset of elements, both satisfying the invariant; popping everything
  from each yields two non-decreasing sequences with the same multiset of values, and the same
  sequence when the ordering has no ties.
\<close>

theorem fix_equivalent_to_remove_push:
  assumes "strict_weak_order lt" and "fits (length h)" and "heap_inv lt h" and "in_range h i"
  shows "\<exists>a x b0 b outa outb.
      FixFunc (h[nat (sint i) := v]) i lt = Inr a
    \<and> RemoveFunc h i lt = Inr (x, b0) \<and> PushFunc b0 v lt = Inr b
    \<and> length a = length b \<and> mset a = mset b \<and> heap_inv lt a \<and> heap_inv lt b
    \<and> pop_n (length a) a lt = Inr (outa, []) \<and> pop_n (length b) b lt = Inr (outb, [])
    \<and> non_decreasing lt outa \<and> non_decreasing lt outb \<and> mset outa = mset outb
    \<and> (total_order lt \<longrightarrow> outa = outb)"
proof -
  define k where "k = nat (sint i)"
  have kl: "k < length h" using assms(4) unfolding k_def in_range_def by linarith
  from FixFunc_ok [OF assms, of v] obtain a where
    a: "FixFunc (h[k := v]) i lt = Inr a" "heap_inv lt a" "mset a = mset (h[k := v])"
      "length a = length h" unfolding k_def by blast
  from RemoveFunc_ok [OF assms] obtain b0 where
    r: "RemoveFunc h i lt = Inr (h ! k, b0)" "heap_inv lt b0"
      "add_mset (h ! k) (mset b0) = mset h" "Suc (length b0) = length h"
    unfolding k_def at_def by blast
  have f0: "fits (Suc (length b0))" using assms(2) r(4) by simp
  from PushFunc_ok [OF assms(1) f0 r(2), of v] obtain b where
    b: "PushFunc b0 v lt = Inr b" "heap_inv lt b" "mset b = add_mset v (mset b0)"
      "length b = Suc (length b0)" by blast
  have "mset b0 = mset h - {#h ! k#}" using r(3) by (metis add_mset_remove_trivial)
  then have ms: "mset a = mset b" using a(3) b(3) kl by (simp add: mset_update)
  have ln: "length a = length b" using a(4) b(4) r(4) by simp
  have fa: "fits (length a)" and fb: "fits (length b)" using assms(2) a(4) ln by simp_all
  from pop_all_ok [OF assms(1) fa a(2)] obtain outa where
    oa: "pop_n (length a) a lt = Inr (outa, [])" "non_decreasing lt outa" "mset outa = mset a"
    by blast
  from pop_all_ok [OF assms(1) fb b(2)] obtain outb where
    ob: "pop_n (length b) b lt = Inr (outb, [])" "non_decreasing lt outb" "mset outb = mset b"
    by blast
  have mo: "mset outa = mset outb" using oa(3) ob(3) ms by simp
  have "total_order lt \<longrightarrow> outa = outb"
    using sorted_unique [OF _ oa(2) ob(2) mo] by blast
  with a(1,2) r(1) b(1,2) ln ms oa(1,2) ob(1,2) mo show ?thesis
    unfolding k_def by blast
qed

theorem fix_equivalent_to_remove_push_witness:
  "strict_weak_order ((<) :: nat \<Rightarrow> nat \<Rightarrow> bool) \<and> fits (length [1, 2, 3, 5, 9, 8 :: nat])
   \<and> heap_inv (<) [1, 2, 3, 5, 9, 8 :: nat] \<and> in_range [1, 2, 3, 5, 9, 8 :: nat] 1
   \<and> total_order ((<) :: nat \<Rightarrow> nat \<Rightarrow> bool)
   \<and> (\<exists>a x b0 b out.
        FixFunc ([1, 2, 3, 5, 9, 8 :: nat][nat (sint (1 :: go_int)) := 7]) 1 (<) = Inr a
      \<and> RemoveFunc [1, 2, 3, 5, 9, 8 :: nat] 1 (<) = Inr (x, b0) \<and> PushFunc b0 7 (<) = Inr b
      \<and> length a = length b \<and> mset a = mset b \<and> heap_inv (<) a \<and> heap_inv (<) b
      \<and> pop_n (length a) a (<) = Inr (out, []) \<and> pop_n (length b) b (<) = Inr (out, [])
      \<and> non_decreasing (<) out)"
proof -
  have 1: "fits (length [1, 2, 3, 5, 9, 8 :: nat])" by (simp add: fits_def)
  have 2: "heap_inv (<) [1, 2, 3, 5, 9, 8 :: nat]"
    by (simp add: heap_inv_def atLeastLessThan_upt)
  have 3: "in_range [1, 2, 3, 5, 9, 8 :: nat] 1" by (simp add: in_range_def)
  have 4: "total_order ((<) :: nat \<Rightarrow> nat \<Rightarrow> bool)"
    unfolding total_order_def using swo_nat_less by auto
  from fix_equivalent_to_remove_push [OF swo_nat_less 1 2 3, of 7] 4
  show ?thesis using swo_nat_less 1 2 3 by blast
qed

text \<open>
  C8 as stated fails: it asks that pushing the values one by one and popping them all gives
  exactly the output sequence of \<^verbatim>\<open>InitFunc\<close> on the same values followed by popping them all.
  With ties the two heaps are laid out differently and equal priorities come out in different
  orders.
\<close>

theorem push_vs_heapify_counterexample:
  "strict_weak_order by_key
   \<and> push_all [] [(1, 0), (1, 1), (0, 2), (0, 3)] by_key = Inr [(0, 2), (0, 3), (1, 0), (1, 1)]
   \<and> pop_n 4 [(0, 2), (0, 3), (1, 0), (1, 1)] by_key = Inr ([(0, 2), (0, 3), (1, 0), (1, 1)], [])
   \<and> InitFunc [(1, 0), (1, 1), (0, 2), (0, 3)] by_key = Inr [(0, 3), (1, 0), (0, 2), (1, 1)]
   \<and> pop_n 4 [(0, 3), (1, 0), (0, 2), (1, 1)] by_key = Inr ([(0, 3), (0, 2), (1, 1), (1, 0)], [])
   \<and> [(0, 2), (0, 3), (1, 0), (1, 1)] \<noteq> [(0, 3), (0, 2), (1, 1), (1 :: nat, 0 :: nat)]"
proof -
  have 1: "push_all [] [(1, 0), (1, 1), (0, 2), (0, 3)] by_key
      = Inr [(0, 2), (0, 3), (1, 0), (1, 1)]" by code_simp
  have 2: "pop_n 4 [(0, 2), (0, 3), (1, 0), (1, 1)] by_key
      = Inr ([(0, 2), (0, 3), (1, 0), (1, 1)], [])" by code_simp
  have 3: "InitFunc [(1, 0), (1, 1), (0, 2), (0, 3)] by_key
      = Inr [(0, 3), (1, 0), (0, 2), (1, 1)]" by code_simp
  have 4: "pop_n 4 [(0, 3), (1, 0), (0, 2), (1, 1)] by_key
      = Inr ([(0, 3), (0, 2), (1, 1), (1, 0)], [])" by code_simp
  have 5: "[(0, 2), (0, 3), (1, 0), (1, 1)] \<noteq> [(0, 3), (0, 2), (1, 1), (1 :: nat, 0 :: nat)]"
    by simp
  show ?thesis using swo_by_key 1 2 3 4 5 by blast
qed

text \<open>
  C8, amended. For a strict weak ordering and the same values in any two orders \<open>xs\<close> and
  \<open>ys\<close>: pushing \<open>xs\<close> one by one onto the empty slice and popping everything, and \<^verbatim>\<open>InitFunc\<close>
  on \<open>ys\<close> and popping everything, both return normally and yield non-decreasing sequences of
  exactly those values; the two sequences are the same when the ordering has no ties.
\<close>

theorem push_pop_duality:
  assumes "strict_weak_order lt" and "fits (length xs)" and "mset ys = mset xs"
  shows "\<exists>a b outa outb.
      push_all [] xs lt = Inr a \<and> InitFunc ys lt = Inr b
    \<and> pop_n (length xs) a lt = Inr (outa, []) \<and> pop_n (length ys) b lt = Inr (outb, [])
    \<and> non_decreasing lt outa \<and> non_decreasing lt outb
    \<and> mset outa = mset xs \<and> mset outb = mset xs
    \<and> (total_order lt \<longrightarrow> outa = outb)"
proof -
  have ly: "length ys = length xs" using assms(3) by (rule mset_eq_length)
  have f0: "fits (length ([] :: 'a list) + length xs)" using assms(2) by simp
  from push_all_ok [OF assms(1) f0 heap_inv_Nil] obtain a where
    a: "push_all [] xs lt = Inr a" "heap_inv lt a" "mset a = mset xs" "length a = length xs"
    by auto
  have fy: "fits (length ys)" using assms(2) ly by simp
  from InitFunc_ok [OF assms(1) fy] obtain b where
    b: "InitFunc ys lt = Inr b" "heap_inv lt b" "mset b = mset ys" "length b = length ys"
    by blast
  have fa: "fits (length a)" and fb: "fits (length b)" using assms(2) a(4) b(4) ly by simp_all
  from pop_all_ok [OF assms(1) fa a(2)] obtain outa where
    oa: "pop_n (length xs) a lt = Inr (outa, [])" "non_decreasing lt outa" "mset outa = mset xs"
    unfolding a(3,4) by blast
  from pop_all_ok [OF assms(1) fb b(2)] obtain outb where
    ob: "pop_n (length ys) b lt = Inr (outb, [])" "non_decreasing lt outb" "mset outb = mset xs"
    unfolding b(3,4) assms(3) by blast
  have mo: "mset outa = mset outb" using oa(3) ob(3) by simp
  have "total_order lt \<longrightarrow> outa = outb"
    using sorted_unique [OF _ oa(2) ob(2) mo] by blast
  with a(1) b(1) oa ob show ?thesis by blast
qed

theorem push_pop_duality_witness:
  "strict_weak_order ((<) :: nat \<Rightarrow> nat \<Rightarrow> bool) \<and> fits (length [3, 1, 4, 1, 5 :: nat])
   \<and> mset [1, 1, 3, 4, 5 :: nat] = mset [3, 1, 4, 1, 5]
   \<and> total_order ((<) :: nat \<Rightarrow> nat \<Rightarrow> bool)
   \<and> (\<exists>a b out.
        push_all [] [3, 1, 4, 1, 5 :: nat] (<) = Inr a \<and> InitFunc [1, 1, 3, 4, 5 :: nat] (<) = Inr b
      \<and> pop_n (length [3, 1, 4, 1, 5 :: nat]) a (<) = Inr (out, [])
      \<and> pop_n (length [1, 1, 3, 4, 5 :: nat]) b (<) = Inr (out, [])
      \<and> non_decreasing (<) out \<and> mset out = mset [3, 1, 4, 1, 5 :: nat])"
proof -
  have 1: "fits (length [3, 1, 4, 1, 5 :: nat])" by (simp add: fits_def)
  have 2: "mset [1, 1, 3, 4, 5 :: nat] = mset [3, 1, 4, 1, 5]" by simp
  have 3: "total_order ((<) :: nat \<Rightarrow> nat \<Rightarrow> bool)"
    unfolding total_order_def using swo_nat_less by auto
  from push_pop_duality [OF swo_nat_less 1 2] 3
  show ?thesis using swo_nat_less 1 2 by blast
qed

text \<open>
  C9. \<^verbatim>\<open>InitFunc\<close> is idempotent: for a strict weak ordering, a second call returns the slice
  the first call returned, element for element; and on a slice that already satisfies the
  invariant \<^verbatim>\<open>InitFunc\<close> changes nothing, whatever the ordering function.
\<close>

theorem heapify_idempotent:
  assumes "fits (length h)"
  shows "(strict_weak_order lt \<longrightarrow> (\<exists>h1. InitFunc h lt = Inr h1 \<and> InitFunc h1 lt = Inr h1))
    \<and> (heap_inv lt h \<longrightarrow> InitFunc h lt = Inr h)"
proof (intro conjI impI)
  assume "strict_weak_order lt"
  from InitFunc_ok [OF this assms] obtain h1 where
    a: "InitFunc h lt = Inr h1" "heap_inv lt h1" "length h1 = length h" by blast
  have "fits (length h1)" using assms a(3) by simp
  from InitFunc_noop [OF this a(2)] a(1)
  show "\<exists>h1. InitFunc h lt = Inr h1 \<and> InitFunc h1 lt = Inr h1" by blast
next
  assume "heap_inv lt h"
  with assms show "InitFunc h lt = Inr h" by (rule InitFunc_noop)
qed

theorem heapify_idempotent_witness:
  "fits (length [1, 2, 3, 5, 9, 8 :: nat]) \<and> strict_weak_order ((<) :: nat \<Rightarrow> nat \<Rightarrow> bool)
   \<and> heap_inv (<) [1, 2, 3, 5, 9, 8 :: nat]
   \<and> (\<exists>h1. InitFunc [1, 2, 3, 5, 9, 8 :: nat] (<) = Inr h1 \<and> InitFunc h1 (<) = Inr h1)
   \<and> InitFunc [1, 2, 3, 5, 9, 8 :: nat] (<) = Inr [1, 2, 3, 5, 9, 8]"
proof -
  have 1: "fits (length [1, 2, 3, 5, 9, 8 :: nat])" by (simp add: fits_def)
  have 2: "heap_inv (<) [1, 2, 3, 5, 9, 8 :: nat]"
    by (simp add: heap_inv_def atLeastLessThan_upt)
  from heapify_idempotent [OF 1, of "(<)"]
  show ?thesis using swo_nat_less 1 2 by blast
qed

text \<open>
  C10. On a non-empty slice, for any ordering function, \<^verbatim>\<open>PopFunc\<close> and \<^verbatim>\<open>RemoveFunc\<close> at
  index 0 return the same value and leave the same slice.
\<close>

theorem pop_is_remove_at_zero:
  assumes "fits (length h)" and "h \<noteq> []"
  shows "\<exists>x h'. PopFunc h lt = Inr (x, h') \<and> RemoveFunc h 0 lt = Inr (x, h')"
proof -
  define n where "n = length h - 1"
  define g where "g = h[0 := h ! n]"
  have l: "0 < length h" using assms(2) by simp
  have p: "PopFunc h lt = Inr (h ! 0, fst (sift_down lt n (take n g) 0))"
    unfolding n_def g_def by (rule PopFunc_refines [OF assms])
  have r: "RemoveFunc h 0 lt = Inr (h ! 0, take n (if n \<noteq> 0 then fix_at lt n g 0 else h))"
    using RemoveFunc_refines [OF assms(1) l, of lt] by (simp add: n_def g_def)
  have "take n (if n \<noteq> 0 then fix_at lt n g 0 else h) = fst (sift_down lt n (take n g) 0)"
  proof (cases "n = 0")
    case True
    then show ?thesis by (simp add: sift_down_empty)
  next
    case False
    have "n \<le> length g" using l by (simp add: n_def g_def)
    from sift_down_take [OF this, of lt 0] False show ?thesis
      by (simp add: fix_at_def sift_up_zero)
  qed
  with p r show ?thesis by simp
qed

theorem pop_is_remove_at_zero_witness:
  "fits (length [1, 2, 3, 5, 9, 8 :: nat]) \<and> [1, 2, 3, 5, 9, 8 :: nat] \<noteq> []
   \<and> (\<exists>x h'. PopFunc [1, 2, 3, 5, 9, 8 :: nat] (<) = Inr (x, h')
         \<and> RemoveFunc [1, 2, 3, 5, 9, 8 :: nat] 0 (<) = Inr (x, h'))"
proof -
  have 1: "fits (length [1, 2, 3, 5, 9, 8 :: nat])" by (simp add: fits_def)
  have 2: "[1, 2, 3, 5, 9, 8 :: nat] \<noteq> []" by simp
  from pop_is_remove_at_zero [OF 1 2] show ?thesis using 1 2 by blast
qed

end
